theory Spec2Isabelle
  imports Complex_Main
begin

section \<open>JavaScript strings and the built-ins the front end calls\<close>

text \<open>
  A JavaScript string is a sequence of UTF-16 code units. The front end joins answers
  with the full-width semicolon U+FF1B and matches the range U+4E00..U+9FA5, so code
  units are modelled as natural numbers (every value used is below 65536) and a string
  as a list of them. \<open>ascii\<close> embeds an ASCII literal.
\<close>

type_synonym code_unit = nat
type_synonym jsstring = "code_unit list"

definition ascii :: "string \<Rightarrow> jsstring" where
  "ascii s = map of_char s"

text \<open>
  \<open>String.prototype.trim\<close> removes the ECMAScript WhiteSpace and LineTerminator code
  units from both ends. The same set, given by its ranges, is the regular expression
  class \<open>\s\<close>.
\<close>

fun in_ranges :: "code_unit \<Rightarrow> (code_unit \<times> code_unit) list \<Rightarrow> bool" where
  "in_ranges c [] = False"
| "in_ranges c ((lo, hi) # rs) = ((lo \<le> c \<and> c \<le> hi) \<or> in_ranges c rs)"

definition space_ranges :: "(code_unit \<times> code_unit) list" where
  "space_ranges = [(9, 13), (32, 32), (160, 160), (5760, 5760), (8192, 8202), (8232, 8233),
                   (8239, 8239), (8287, 8287), (12288, 12288), (65279, 65279)]"

definition is_space :: "code_unit \<Rightarrow> bool" where
  "is_space c = in_ranges c space_ranges"

definition trim :: "jsstring \<Rightarrow> jsstring" where
  "trim s = rev (dropWhile is_space (rev (dropWhile is_space s)))"

text \<open>\<open>Array.prototype.join\<close>: the elements with the separator between neighbours.\<close>

fun join :: "jsstring \<Rightarrow> jsstring list \<Rightarrow> jsstring" where
  "join sep [] = []"
| "join sep [x] = x"
| "join sep (x # y # ys) = x @ sep @ join sep (y # ys)"

text \<open>
  \<open>Math.round\<close> rounds to the nearest integer, a tie going up: \<open>floor (x + 1/2)\<close>.
  The quotients rounded here are an integer total over the number of dimensions, which a
  double holds exactly when that number is four, so exact division models them.
\<close>

definition Math_round :: "real \<Rightarrow> int" where
  "Math_round x = \<lfloor>x + 1 / 2\<rfloor>"

text \<open>The fixed texts of the interface, as code units.\<close>

definition full_width_semicolon :: jsstring where
  "full_width_semicolon = [0xFF1B]"

definition msg_service_error :: jsstring where
  "msg_service_error = [0x670D, 0x52A1, 0x9519, 0x8BEF]"

definition msg_retry_later :: jsstring where
  "msg_retry_later = [0x8BF7, 0x7A0D, 0x540E, 0x91CD, 0x8BD5]"

definition msg_network_error :: jsstring where
  "msg_network_error = [0x7F51, 0x7EDC, 0x9519, 0x8BEF]"

definition msg_cannot_connect :: jsstring where
  "msg_cannot_connect =
     [0x65E0, 0x6CD5, 0x8FDE, 0x63A5, 0x5230, 0x670D, 0x52A1, 0x5668, 0xFF0C, 0x8BF7,
      0x68C0, 0x67E5, 0x7F51, 0x7EDC, 0x8FDE, 0x63A5, 0x540E, 0x91CD, 0x8BD5]"

definition msg_all_completed :: jsstring where
  "msg_all_completed =
     [0x6240, 0x6709, 0x95EE, 0x9898, 0x5DF2, 0x5B8C, 0x6210, 0xFF01, 0x60A8, 0x53EF,
      0x4EE5, 0x786E, 0x8BA4, 0x9700, 0x6C42, 0x5E76, 0x751F, 0x6210, 0x62A5, 0x544A, 0x3002]"

definition msg_submit_failed :: jsstring where
  "msg_submit_failed = [0x63D0, 0x4EA4, 0x56DE, 0x7B54, 0x5931, 0x8D25]"

definition msg_request_failed :: jsstring where
  "msg_request_failed = [0x8BF7, 0x6C42, 0x5931, 0x8D25]"


section \<open>The interview state of \<open>deepVision()\<close>\<close>

text \<open>
  The four dimension keys of \<open>dimensionOrder\<close>. A session as the server sends it holds
  one coverage record under each key; coverage is an integer percentage.
\<close>

datatype dimension = customer_needs | business_process | tech_constraints | project_constraints

definition dimensionOrder :: "dimension list" where
  "dimensionOrder = [customer_needs, business_process, tech_constraints, project_constraints]"

record dimension_state =
  coverage :: int

record log_entry =
  log_question :: jsstring
  log_answer :: jsstring
  log_dimension :: dimension
  log_options :: "jsstring list"
  log_multi_select :: bool

record session =
  session_id :: jsstring
  dimensions :: "dimension \<Rightarrow> dimension_state"
  interview_log :: "log_entry list"

text \<open>
  \<open>currentQuestion\<close>. A field the code leaves out of an object literal reads as
  \<open>undefined\<close>; it is modelled by the falsy value of its type (\<open>False\<close>, \<open>None\<close>,
  the empty string).
\<close>

record question =
  question_text :: jsstring
  options :: "jsstring list"
  multiSelect :: bool
  isFollowUp :: bool
  followUpReason :: "jsstring option"
  conflictDetected :: bool
  conflictDescription :: "jsstring option"
  aiGenerated :: bool
  serviceError :: bool
  errorTitle :: jsstring
  errorDetail :: jsstring

record toast =
  toast_show :: bool
  toast_message :: jsstring
  toast_type :: jsstring

record app =
  currentSession :: "session option"
  currentDimension :: dimension
  currentQuestion :: question
  selectedAnswers :: "jsstring list"
  otherAnswerText :: jsstring
  otherSelected :: bool
  loadingQuestion :: bool
  isGoingPrev :: bool
  webSearching :: bool
  webSearchPollInterval :: bool
  toast :: toast

datatype js_error = TypeError | Error jsstring

definition showToast :: "jsstring \<Rightarrow> jsstring \<Rightarrow> app \<Rightarrow> app" where
  "showToast message type s =
     s\<lparr>toast := \<lparr>toast_show = True, toast_message = message, toast_type = type\<rparr>\<rparr>"

definition startWebSearchPolling :: "app \<Rightarrow> app" where
  "startWebSearchPolling s = (if webSearchPollInterval s then s else s\<lparr>webSearchPollInterval := True\<rparr>)"

definition stopWebSearchPolling :: "app \<Rightarrow> app" where
  "stopWebSearchPolling s = s\<lparr>webSearchPollInterval := False, webSearching := False\<rparr>"


subsection \<open>Dimension tracking\<close>

text \<open>
  \<open>getNextIncompleteDimension\<close>: the \<open>for ... of\<close> loop over \<open>dimensionOrder\<close>, then
  the fallback \<open>dimensionOrder[0]\<close>. Reading \<open>this.currentSession.dimensions\<close> of a null
  session throws a TypeError.
\<close>

fun first_incomplete :: "session \<Rightarrow> dimension list \<Rightarrow> dimension option" where
  "first_incomplete cs [] = None"
| "first_incomplete cs (d # ds) =
     (if coverage (dimensions cs d) < 100 then Some d else first_incomplete cs ds)"

definition getNextIncompleteDimension :: "app \<Rightarrow> js_error + dimension" where
  "getNextIncompleteDimension s =
     (case currentSession s of
        None \<Rightarrow> Inl TypeError
      | Some cs \<Rightarrow>
          (case first_incomplete cs dimensionOrder of
             Some d \<Rightarrow> Inr d
           | None \<Rightarrow> Inr (dimensionOrder ! 0)))"

text \<open>
  \<open>getTotalProgress\<close>: \<open>Object.values\<close> of the four-key object, the \<open>reduce\<close> with
  \<open>d.coverage || 0\<close>, and \<open>Math.round(total / dims.length)\<close>.
\<close>

definition Object_values :: "(dimension \<Rightarrow> dimension_state) \<Rightarrow> dimension_state list" where
  "Object_values ds = map ds dimensionOrder"

definition getTotalProgress :: "app \<Rightarrow> int" where
  "getTotalProgress s =
     (case currentSession s of
        None \<Rightarrow> 0
      | Some cs \<Rightarrow>
          (let dims = Object_values (dimensions cs);
               total = foldl (\<lambda>acc d. acc + (if coverage d = 0 then 0 else coverage d)) 0 dims
           in Math_round (real_of_int total / real (length dims))))"


subsection \<open>Selecting and composing an answer\<close>

definition canSubmitAnswer :: "app \<Rightarrow> bool" where
  "canSubmitAnswer s =
     (if question_text (currentQuestion s) = [] \<or> length (options (currentQuestion s)) = 0 then False
      else if multiSelect (currentQuestion s) then
        (let hasSelectedOptions = length (selectedAnswers s) > 0;
             hasValidOther = (otherSelected s \<and> length (trim (otherAnswerText s)) > 0)
         in hasSelectedOptions \<or> hasValidOther)
      else if otherSelected s then length (trim (otherAnswerText s)) > 0
      else length (selectedAnswers s) > 0)"

text \<open>
  \<open>toggleOption\<close>: \<open>indexOf\<close> and \<open>splice(index, 1)\<close> drop the first occurrence,
  \<open>push\<close> appends.
\<close>

definition toggleOption :: "jsstring \<Rightarrow> app \<Rightarrow> app" where
  "toggleOption option s =
     (if multiSelect (currentQuestion s) then
        (if option \<in> set (selectedAnswers s)
         then s\<lparr>selectedAnswers := remove1 option (selectedAnswers s)\<rparr>
         else s\<lparr>selectedAnswers := selectedAnswers s @ [option]\<rparr>)
      else s\<lparr>selectedAnswers := [option], otherSelected := False, otherAnswerText := []\<rparr>)"

definition isOptionSelected :: "jsstring \<Rightarrow> app \<Rightarrow> bool" where
  "isOptionSelected option s \<longleftrightarrow> option \<in> set (selectedAnswers s)"

definition toggleOther :: "app \<Rightarrow> app" where
  "toggleOther s =
     (if multiSelect (currentQuestion s) then
        (let s1 = s\<lparr>otherSelected := \<not> otherSelected s\<rparr>
         in if \<not> otherSelected s1 then s1\<lparr>otherAnswerText := []\<rparr> else s1)
      else s\<lparr>selectedAnswers := [], otherSelected := True\<rparr>)"

text \<open>
  The local \<open>answer\<close> of \<open>submitAnswer\<close>. \<open>this.selectedAnswers[0]\<close> of an empty array
  is \<open>undefined\<close>, here \<open>None\<close>.
\<close>

definition composeAnswer :: "app \<Rightarrow> jsstring option" where
  "composeAnswer s =
     (if multiSelect (currentQuestion s) then
        (let answers = selectedAnswers s;
             answers = (if otherSelected s \<and> trim (otherAnswerText s) \<noteq> []
                        then answers @ [trim (otherAnswerText s)] else answers)
         in Some (join full_width_semicolon answers))
      else if otherSelected s then Some (trim (otherAnswerText s))
      else (case selectedAnswers s of [] \<Rightarrow> None | a # _ \<Rightarrow> Some a))"

text \<open>A sequence of clicks on the options and on the "other" entry.\<close>

datatype click = ClickOption jsstring | ClickOther

fun do_click :: "click \<Rightarrow> app \<Rightarrow> app" where
  "do_click (ClickOption option) s = toggleOption option s"
| "do_click ClickOther s = toggleOther s"

definition clicks :: "click list \<Rightarrow> app \<Rightarrow> app" where
  "clicks cs s = foldl (\<lambda>st c. do_click c st) s cs"


subsection \<open>Requests to the server\<close>

text \<open>
  The JSON body of a \<open>next-question\<close> response. An absent string is the empty string
  (both are falsy under \<open>||\<close>), an absent flag is \<open>False\<close>.
\<close>

record result =
  r_error :: jsstring
  r_detail :: jsstring
  completed :: bool
  r_question :: jsstring
  r_options :: "jsstring list"
  multi_select :: bool
  is_follow_up :: bool
  follow_up_reason :: "jsstring option"
  conflict_detected :: bool
  conflict_description :: "jsstring option"
  ai_generated :: bool

text \<open>
  What a \<open>fetch\<close> of \<open>next-question\<close> comes to: the promise rejects or the body is not
  JSON (both land in the \<open>catch\<close> block), or a response arrives with its \<open>ok\<close> flag
  and its body.
\<close>

datatype fetch_outcome = NetworkFailure | HttpResponse bool result

text \<open>
  What \<open>apiCall\<close> meets: the promise rejects, the response is not \<open>ok\<close> (with the
  \<open>error\<close> text of its body), or it is \<open>ok\<close> with its body. \<open>apiCall\<close> rethrows the
  first two.
\<close>

datatype 'a api_outcome = ApiRejected | ApiNotOk jsstring | ApiOk 'a

definition apiCall :: "'a api_outcome \<Rightarrow> js_error + 'a" where
  "apiCall outcome =
     (case outcome of
        ApiRejected \<Rightarrow> Inl TypeError
      | ApiNotOk e \<Rightarrow> Inl (Error (if e = [] then msg_request_failed else e))
      | ApiOk v \<Rightarrow> Inr v)"

record submit_body =
  b_question :: jsstring
  b_answer :: "jsstring option"
  b_dimension :: dimension
  b_options :: "jsstring list"
  b_multi_select :: bool


subsection \<open>\<open>fetchNextQuestion\<close>\<close>

text \<open>\<open>Array.prototype.indexOf\<close>: the first index, or -1.\<close>

fun indexOf :: "'a list \<Rightarrow> 'a \<Rightarrow> int" where
  "indexOf [] x = -1"
| "indexOf (y # ys) x = (if y = x then 0 else (let i = indexOf ys x in if i < 0 then -1 else i + 1))"

text \<open>
  The loop of the \<open>completed\<close> branch: \<open>i\<close> runs over \<open>1 .. dimensionOrder.length\<close>, the
  first \<open>nextDim\<close> with coverage below 100 is taken.
\<close>

fun next_dimension_loop :: "session \<Rightarrow> int \<Rightarrow> int list \<Rightarrow> dimension option" where
  "next_dimension_loop cs currentIdx [] = None"
| "next_dimension_loop cs currentIdx (i # is) =
     (let nextDim = dimensionOrder ! nat ((currentIdx + i) mod int (length dimensionOrder))
      in if coverage (dimensions cs nextDim) < 100 then Some nextDim
         else next_dimension_loop cs currentIdx is)"

definition error_question :: "jsstring \<Rightarrow> jsstring \<Rightarrow> question" where
  "error_question title detail =
     \<lparr>question_text = [], options = [], multiSelect = False, isFollowUp = False,
      followUpReason = None, conflictDetected = False, conflictDescription = None,
      aiGenerated = False, serviceError = True, errorTitle = title, errorDetail = detail\<rparr>"

definition all_completed_question :: question where
  "all_completed_question =
     \<lparr>question_text = msg_all_completed, options = [], multiSelect = False, isFollowUp = False,
      followUpReason = None, conflictDetected = False, conflictDescription = None,
      aiGenerated = False, serviceError = False, errorTitle = [], errorDetail = []\<rparr>"

definition generated_question :: "result \<Rightarrow> question" where
  "generated_question r =
     \<lparr>question_text = r_question r, options = r_options r, multiSelect = multi_select r,
      isFollowUp = is_follow_up r, followUpReason = follow_up_reason r,
      conflictDetected = conflict_detected r, conflictDescription = conflict_description r,
      aiGenerated = ai_generated r, serviceError = False, errorTitle = [], errorDetail = []\<rparr>"

text \<open>The three exits of \<open>fetchNextQuestion\<close> that report a failure, and its \<open>finally\<close>.\<close>

definition on_service_error :: "result \<Rightarrow> app \<Rightarrow> app" where
  "on_service_error r s =
     (let title = (if r_error r = [] then msg_service_error else r_error r);
          detail = (if r_detail r = [] then msg_retry_later else r_detail r)
      in (showToast title (ascii ''error'') s)\<lparr>currentQuestion := error_question title detail\<rparr>)"

definition on_network_error :: "app \<Rightarrow> app" where
  "on_network_error s =
     (showToast msg_network_error (ascii ''error'') s)
       \<lparr>currentQuestion := error_question msg_network_error msg_cannot_connect\<rparr>"

definition fetch_finally :: "app \<Rightarrow> app" where
  "fetch_finally s = (stopWebSearchPolling (s\<lparr>loadingQuestion := False\<rparr>))\<lparr>isGoingPrev := False\<rparr>"

text \<open>
  \<open>fetchNextQuestion\<close>, given the outcomes of the \<open>next-question\<close> requests it will
  make, in order; it returns the state it leaves and the outcomes it did not use. A
  request that never settles (no outcome left) makes the call never return: \<open>None\<close>.
  With a null session the URL template throws inside the \<open>try\<close> before any request.
\<close>

fun fetchNextQuestion :: "fetch_outcome list \<Rightarrow> app \<Rightarrow> (app \<times> fetch_outcome list) option" where
  "fetchNextQuestion outcomes s =
     (let s = startWebSearchPolling (s\<lparr>loadingQuestion := True\<rparr>);
          s = s\<lparr>selectedAnswers := [], otherAnswerText := [], otherSelected := False\<rparr>
      in case currentSession s of
           None \<Rightarrow> Some (fetch_finally (on_network_error s), outcomes)
         | Some cs \<Rightarrow>
             (case outcomes of
                [] \<Rightarrow> None
              | NetworkFailure # rest \<Rightarrow> Some (fetch_finally (on_network_error s), rest)
              | HttpResponse ok r # rest \<Rightarrow>
                  if \<not> ok \<or> r_error r \<noteq> [] then Some (fetch_finally (on_service_error r s), rest)
                  else if completed r then
                    (case next_dimension_loop cs (indexOf dimensionOrder (currentDimension s))
                            [1 .. int (length dimensionOrder)] of
                       Some nextDim \<Rightarrow>
                         (case fetchNextQuestion rest (s\<lparr>currentDimension := nextDim\<rparr>) of
                            None \<Rightarrow> None
                          | Some (s', rest') \<Rightarrow> Some (fetch_finally s', rest'))
                     | None \<Rightarrow> Some (fetch_finally (s\<lparr>currentQuestion := all_completed_question\<rparr>), rest))
                  else Some (fetch_finally (s\<lparr>currentQuestion := generated_question r\<rparr>), rest)))"


subsection \<open>\<open>submitAnswer\<close>\<close>

text \<open>
  \<open>submitAnswer\<close>, given the server's reaction to the \<open>submit-answer\<close> request and the
  outcomes of the \<open>next-question\<close> requests that follow. Everything after the answer is
  composed runs inside the \<open>try\<close>, whose \<open>catch\<close> only shows a toast.
\<close>

definition submit_request :: "app \<Rightarrow> submit_body" where
  "submit_request s =
     \<lparr>b_question = question_text (currentQuestion s), b_answer = composeAnswer s,
      b_dimension = currentDimension s, b_options = options (currentQuestion s),
      b_multi_select = multiSelect (currentQuestion s)\<rparr>"

definition submitAnswer ::
  "(submit_body \<Rightarrow> session api_outcome) \<Rightarrow> fetch_outcome list \<Rightarrow> app \<Rightarrow> (app \<times> fetch_outcome list) option"
where
  "submitAnswer server outcomes s =
     (if \<not> canSubmitAnswer s then Some (s, outcomes)
      else
        (let failed = Some (showToast msg_submit_failed (ascii ''error'') s, outcomes)
         in case currentSession s of
              None \<Rightarrow> failed
            | Some _ \<Rightarrow>
                (case apiCall (server (submit_request s)) of
                   Inl _ \<Rightarrow> failed
                 | Inr updatedSession \<Rightarrow>
                     (let s = s\<lparr>currentSession := Some updatedSession\<rparr>
                      in if coverage (dimensions updatedSession (currentDimension s)) \<ge> 100 then
                           (case getNextIncompleteDimension s of
                              Inl _ \<Rightarrow> Some (showToast msg_submit_failed (ascii ''error'') s, outcomes)
                            | Inr d \<Rightarrow> fetchNextQuestion outcomes (s\<lparr>currentDimension := d\<rparr>))
                         else fetchNextQuestion outcomes s))))"


subsection \<open>The claimed order of the next incomplete dimension\<close>

text \<open>
  The specification's wording of "next incomplete": scan the canonical order starting
  right after the active dimension, wrapping around, and take the first dimension with
  coverage below 100; when there is none, the first dimension of the canonical order.
  It is compared with \<open>getNextIncompleteDimension\<close> below.
\<close>

definition nextIncomplete_spec :: "session \<Rightarrow> dimension \<Rightarrow> dimension" where
  "nextIncomplete_spec cs active =
     (case find (\<lambda>d. coverage (dimensions cs d) < 100)
             (rotate (nat (indexOf dimensionOrder active) + 1) dimensionOrder) of
        Some d \<Rightarrow> d
      | None \<Rightarrow> hd dimensionOrder)"


subsection \<open>Sample states\<close>

definition sample_question :: "bool \<Rightarrow> question" where
  "sample_question multi =
     \<lparr>question_text = ascii ''Q'', options = [ascii ''A'', ascii ''B''], multiSelect = multi,
      isFollowUp = False, followUpReason = None, conflictDetected = False,
      conflictDescription = None, aiGenerated = True, serviceError = False,
      errorTitle = [], errorDetail = []\<rparr>"

definition sample_session :: "int \<Rightarrow> int \<Rightarrow> int \<Rightarrow> int \<Rightarrow> session" where
  "sample_session c1 c2 c3 c4 =
     \<lparr>session_id = ascii ''s1'',
      dimensions = (\<lambda>d. \<lparr>coverage = (case d of customer_needs \<Rightarrow> c1 | business_process \<Rightarrow> c2
                                      | tech_constraints \<Rightarrow> c3 | project_constraints \<Rightarrow> c4)\<rparr>),
      interview_log = []\<rparr>"

definition sample_app :: "session \<Rightarrow> dimension \<Rightarrow> question \<Rightarrow> jsstring list \<Rightarrow> bool \<Rightarrow> jsstring \<Rightarrow> app" where
  "sample_app cs active q selected other otherText =
     \<lparr>currentSession = Some cs, currentDimension = active, currentQuestion = q,
      selectedAnswers = selected, otherAnswerText = otherText, otherSelected = other,
      loadingQuestion = False, isGoingPrev = False, webSearching = False,
      webSearchPollInterval = False,
      toast = \<lparr>toast_show = False, toast_message = [], toast_type = ascii ''success''\<rparr>\<rparr>"


section \<open>Regular expressions as the front end uses them\<close>

text \<open>
  The diagram repair of \<open>renderMermaidCharts\<close> is written with regular expression
  literals. They are modelled by a backtracking matcher over code units, after the
  ECMAScript semantics without the \<open>u\<close> and \<open>i\<close> flags. Every quantifier in the source
  applies to a character class, and the only alternation is between two literals, so the
  atoms are: a literal, one character of a class, a class under \<open>*\<close>, \<open>+\<close> or \<open>*?\<close>,
  \<open>^\<close> (always with the \<open>m\<close> flag), \<open>\b\<close>, and an alternation of literals. A regular
  expression is the sequence of its atoms. Capture groups are only logged by the source
  and are left out.
\<close>

datatype cls = In "(code_unit \<times> code_unit) list" | NotIn "(code_unit \<times> code_unit) list"

fun in_cls :: "cls \<Rightarrow> code_unit \<Rightarrow> bool" where
  "in_cls (In rs) c = in_ranges c rs"
| "in_cls (NotIn rs) c = (\<not> in_ranges c rs)"

datatype atom =
    Chars jsstring
  | One cls
  | Star cls
  | Plus cls
  | LazyStar cls
  | Bol
  | WordB
  | Alt "jsstring list"

type_synonym regex = "atom list"

definition word_ranges :: "(code_unit \<times> code_unit) list" where
  "word_ranges = [(97, 122), (65, 90), (48, 57), (95, 95)]"

definition line_terminator :: "code_unit \<Rightarrow> bool" where
  "line_terminator c \<longleftrightarrow> c = 10 \<or> c = 13 \<or> c = 8232 \<or> c = 8233"

definition word_before :: "code_unit option \<Rightarrow> bool" where
  "word_before p = (case p of None \<Rightarrow> False | Some c \<Rightarrow> in_ranges c word_ranges)"

definition word_after :: "jsstring \<Rightarrow> bool" where
  "word_after s = (case s of [] \<Rightarrow> False | c # _ \<Rightarrow> in_ranges c word_ranges)"

fun atom_weight :: "atom \<Rightarrow> nat" where
  "atom_weight (Chars w) = Suc (length w)"
| "atom_weight (Alt ws) = Suc (sum_list (map (\<lambda>w. Suc (Suc (length w))) ws))"
| "atom_weight (Plus cl) = 2"
| "atom_weight a = 1"

text \<open>
  \<open>matches re p s\<close> runs the atoms of \<open>re\<close> at the start of \<open>s\<close>, where \<open>p\<close> is the code
  unit just before (\<open>None\<close> at the start of the input). It returns the first way to
  match in backtracking order: the code unit before the end of the match and the rest
  of the input. A greedy quantifier first takes one more character and falls back to
  the rest of the expression; the lazy one tries the rest of the expression first.
\<close>

function (sequential) matches ::
  "regex \<Rightarrow> code_unit option \<Rightarrow> jsstring \<Rightarrow> (code_unit option \<times> jsstring) option"
where
  "matches [] p s = Some (p, s)"
| "matches (Chars [] # k) p s = matches k p s"
| "matches (Chars (c # w) # k) p [] = None"
| "matches (Chars (c # w) # k) p (d # s) = (if c = d then matches (Chars w # k) (Some d) s else None)"
| "matches (One cl # k) p [] = None"
| "matches (One cl # k) p (d # s) = (if in_cls cl d then matches k (Some d) s else None)"
| "matches (Star cl # k) p [] = matches k p []"
| "matches (Star cl # k) p (d # s) =
     (if in_cls cl d then
        (case matches (Star cl # k) (Some d) s of Some r \<Rightarrow> Some r | None \<Rightarrow> matches k p (d # s))
      else matches k p (d # s))"
| "matches (Plus cl # k) p [] = None"
| "matches (Plus cl # k) p (d # s) = (if in_cls cl d then matches (Star cl # k) (Some d) s else None)"
| "matches (LazyStar cl # k) p [] = matches k p []"
| "matches (LazyStar cl # k) p (d # s) =
     (case matches k p (d # s) of
        Some r \<Rightarrow> Some r
      | None \<Rightarrow> (if in_cls cl d then matches (LazyStar cl # k) (Some d) s else None))"
| "matches (Bol # k) p s =
     (case p of None \<Rightarrow> matches k p s
      | Some c \<Rightarrow> if line_terminator c then matches k p s else None)"
| "matches (WordB # k) p s = (if word_before p \<noteq> word_after s then matches k p s else None)"
| "matches (Alt [] # k) p s = None"
| "matches (Alt (w # ws) # k) p s =
     (case matches (Chars w # k) p s of Some r \<Rightarrow> Some r | None \<Rightarrow> matches (Alt ws # k) p s)"
  by pat_completeness auto
termination
  by (relation "inv_image (less_than <*lex*> less_than)
        (\<lambda>(k, p, s). (sum_list (map atom_weight k), length s))") auto

text \<open>
  \<open>String.prototype.replace\<close> with a global expression: the matches are found from left
  to right, each search starting where the last match ended (one code unit further
  after an empty match), and the text between them is kept. \<open>f n\<close> is the replacement of
  the match numbered \<open>n\<close>: the callbacks of the source count their calls.
\<close>

function replace_all ::
  "regex \<Rightarrow> (nat \<Rightarrow> jsstring) \<Rightarrow> nat \<Rightarrow> code_unit option \<Rightarrow> jsstring \<Rightarrow> jsstring"
where
  "replace_all re f n p [] = (case matches re p [] of Some _ \<Rightarrow> f n | None \<Rightarrow> [])"
| "replace_all re f n p (c # s) =
     (case matches re p (c # s) of
        Some (p', s') \<Rightarrow>
          f n @ (if length s' < length (c # s) then replace_all re f (Suc n) p' s'
                 else c # replace_all re f (Suc n) (Some c) s)
      | None \<Rightarrow> c # replace_all re f n (Some c) s)"
  by pat_completeness auto
termination
  by (relation "measure (\<lambda>(re, f, n, p, s). length s)") auto

definition replace :: "regex \<Rightarrow> jsstring \<Rightarrow> jsstring \<Rightarrow> jsstring" where
  "replace re replacement s = replace_all re (\<lambda>_. replacement) 0 None s"

text \<open>The number of matches \<open>String.prototype.match\<close> returns for a global expression.\<close>

function count_matches :: "regex \<Rightarrow> code_unit option \<Rightarrow> jsstring \<Rightarrow> nat" where
  "count_matches re p [] = (case matches re p [] of Some _ \<Rightarrow> 1 | None \<Rightarrow> 0)"
| "count_matches re p (c # s) =
     (case matches re p (c # s) of
        Some (p', s') \<Rightarrow>
          Suc (if length s' < length (c # s) then count_matches re p' s'
               else count_matches re (Some c) s)
      | None \<Rightarrow> count_matches re (Some c) s)"
  by pat_completeness auto
termination
  by (relation "measure (\<lambda>(re, p, s). length s)") auto

text \<open>
  \<open>RegExp.prototype.test\<close>, and \<open>match\<close> used as a condition, for an expression
  without the \<open>g\<close> flag: is there a match from some position on. \<open>includes\<close> is the search
  for a literal.
\<close>

fun test_from :: "regex \<Rightarrow> code_unit option \<Rightarrow> jsstring \<Rightarrow> bool" where
  "test_from re p [] = (matches re p [] \<noteq> None)"
| "test_from re p (c # s) = (matches re p (c # s) \<noteq> None \<or> test_from re (Some c) s)"

definition test :: "regex \<Rightarrow> jsstring \<Rightarrow> bool" where
  "test re s = test_from re None s"

definition includes_js :: "jsstring \<Rightarrow> jsstring \<Rightarrow> bool" where
  "includes_js s w = test [Chars w] s"

text \<open>A counter in a template literal: its decimal digits.\<close>

function decimal :: "nat \<Rightarrow> jsstring" where
  "decimal n = (if n < 10 then [48 + n] else decimal (n div 10) @ [48 + n mod 10])"
  by pat_completeness auto
termination
  by (relation "measure id") auto


text \<open>
  Two notions the proofs use: the code unit before the position reached after reading
  \<open>xs\<close>, and a syntactic check that an expression cannot match the empty string.
\<close>

definition lastp :: "code_unit option \<Rightarrow> jsstring \<Rightarrow> code_unit option" where
  "lastp p xs = (if xs = [] then p else Some (last xs))"

fun consuming :: "regex \<Rightarrow> bool" where
  "consuming [] = False"
| "consuming (Chars w # k) = (w \<noteq> [] \<or> consuming k)"
| "consuming (One cl # k) = True"
| "consuming (Plus cl # k) = True"
| "consuming (Alt ws # k) = ([] \<notin> set ws \<or> consuming k)"
| "consuming (a # k) = consuming k"


section \<open>The diagram repair of \<open>renderMermaidCharts\<close>\<close>

subsection \<open>The expressions of the source\<close>

definition space :: cls where "space = In space_ranges"
definition word :: cls where "word = In word_ranges"
definition digit_or_dot :: cls where "digit_or_dot = In [(48, 57), (46, 46)]"
definition cjk :: cls where "cjk = In [(0x4E00, 0x9FA5)]"
definition not_newline :: cls where "not_newline = NotIn [(10, 10)]"
definition not_colon_newline :: cls where "not_colon_newline = NotIn [(58, 58), (10, 10)]"
definition not_bracket_quote_newline :: cls where
  "not_bracket_quote_newline = NotIn [(91, 91), (34, 34), (10, 10)]"

text \<open>
  \<open>/quadrant-1\s+[^:\n]*:\s*[^\n]*/g\<close> and its three siblings, by their keyword.
\<close>

definition re_label_with_colon :: "string \<Rightarrow> regex" where
  "re_label_with_colon keyword =
     [Chars (ascii keyword), Plus space, Star not_colon_newline, Chars (ascii '':''), Star space,
      Star not_newline]"

text \<open>
  \<open>/quadrant-1\s+[^\n]*[\u4e00-\u9fa5]+[^\n]*/g\<close>, its three siblings, and the same
  expression for \<open>title\<close>, \<open>x-axis\<close> and \<open>y-axis\<close>.
\<close>

definition re_label_with_cjk :: "string \<Rightarrow> regex" where
  "re_label_with_cjk keyword =
     [Chars (ascii keyword), Plus space, Star not_newline, Plus cjk, Star not_newline]"

text \<open>\<open>/^\s*([^\n:]*[\u4e00-\u9fa5]+[^\n:]*?):\s*\[/gm\<close>\<close>

definition re_cjk_point :: regex where
  "re_cjk_point =
     [Bol, Star space, Star not_colon_newline, Plus cjk, LazyStar not_colon_newline,
      Chars (ascii '':''), Star space, Chars (ascii ''['')]"

text \<open>\<open>/\w+:\s*\[\s*[\d.]+\s*,\s*[\d.]+\s*\]/\<close>\<close>

definition re_data_point :: regex where
  "re_data_point =
     [Plus word, Chars (ascii '':''), Star space, Chars (ascii ''[''), Star space, Plus digit_or_dot,
      Star space, Chars (ascii '',''), Star space, Plus digit_or_dot, Star space, Chars (ascii '']'')]"

text \<open>\<open>/^(graph|flowchart)\s/m\<close>, \<open>/subgraph\s/g\<close> and \<open>/\bend\b/g\<close>\<close>

definition re_flow_header :: regex where
  "re_flow_header = [Bol, Alt [ascii ''graph'', ascii ''flowchart''], One space]"

definition re_subgraph :: regex where
  "re_subgraph = [Chars (ascii ''subgraph''), One space]"

definition re_end :: regex where
  "re_end = [WordB, Chars (ascii ''end''), WordB]"

text \<open>\<open>/subgraph\s+([\u4e00-\u9fa5][^\["\n]*)\[/g\<close> and \<open>/^\s*([\u4e00-\u9fa5]+)\[/gm\<close>\<close>

definition re_cjk_subgraph :: regex where
  "re_cjk_subgraph =
     [Chars (ascii ''subgraph''), Plus space, One cjk, Star not_bracket_quote_newline, Chars (ascii ''['')]"

definition re_cjk_node :: regex where
  "re_cjk_node = [Bol, Star space, Plus cjk, Chars (ascii ''['')]"


subsection \<open>The repair\<close>

text \<open>
  The first \<open>if\<close> block of the preprocessing: the eleven rewrites of labels, the renaming
  of data points with the counter \<open>reqIndex\<close>, and the default data point.
\<close>

definition fixQuadrant :: "jsstring \<Rightarrow> jsstring" where
  "fixQuadrant d =
     (let d = replace (re_label_with_colon ''quadrant-1'') (ascii ''quadrant-1 P1 High Priority'') d;
          d = replace (re_label_with_colon ''quadrant-2'') (ascii ''quadrant-2 P2 Plan'') d;
          d = replace (re_label_with_colon ''quadrant-3'') (ascii ''quadrant-3 P3 Later'') d;
          d = replace (re_label_with_colon ''quadrant-4'') (ascii ''quadrant-4 Low Priority'') d;
          d = replace (re_label_with_cjk ''quadrant-1'') (ascii ''quadrant-1 P1 High Priority'') d;
          d = replace (re_label_with_cjk ''quadrant-2'') (ascii ''quadrant-2 P2 Plan'') d;
          d = replace (re_label_with_cjk ''quadrant-3'') (ascii ''quadrant-3 P3 Later'') d;
          d = replace (re_label_with_cjk ''quadrant-4'') (ascii ''quadrant-4 Low Priority'') d;
          d = replace (re_label_with_cjk ''title'') (ascii ''title Priority Matrix'') d;
          d = replace (re_label_with_cjk ''x-axis'') (ascii ''x-axis Low --> High'') d;
          d = replace (re_label_with_cjk ''y-axis'') (ascii ''y-axis Low --> High'') d;
          d = replace_all re_cjk_point
                (\<lambda>reqIndex. ascii ''    Req'' @ decimal reqIndex @ ascii '': ['') 1 None d
      in if \<not> test re_data_point d then d @ [10] @ ascii ''    Sample: [0.5, 0.5]'' else d)"

text \<open>
  The second \<open>if\<close> block: the missing \<open>end\<close> lines are appended, then sub-group and node
  identifiers are renamed with the counters \<open>subgraphIndex\<close> and \<open>nodeIndex\<close>.
\<close>

definition closeSubgraphs :: "jsstring \<Rightarrow> jsstring" where
  "closeSubgraphs d =
     (let subgraphCount = count_matches re_subgraph None d;
          endCount = count_matches re_end None d
      in if subgraphCount > endCount
         then d @ concat (replicate (subgraphCount - endCount) ([10] @ ascii ''    end''))
         else d)"

definition fixFlowchart :: "jsstring \<Rightarrow> jsstring" where
  "fixFlowchart d =
     (let d = closeSubgraphs d;
          d = replace_all re_cjk_subgraph
                (\<lambda>subgraphIndex. ascii ''subgraph SG'' @ decimal subgraphIndex @ ascii ''['') 1 None d;
          d = replace_all re_cjk_node
                (\<lambda>nodeIndex. ascii ''    N'' @ decimal nodeIndex @ ascii ''['') 1 None d
      in d)"

text \<open>
  The two renamings that end the second block, lines 829 to 846: sub-group identifiers,
  then node identifiers. \<open>fixFlowchart\<close> is \<open>closeSubgraphs\<close> followed by them.
\<close>

definition renameIdentifiers :: "jsstring \<Rightarrow> jsstring" where
  "renameIdentifiers d =
     replace_all re_cjk_node (\<lambda>nodeIndex. ascii ''    N'' @ decimal nodeIndex @ ascii ''['') 1 None
       (replace_all re_cjk_subgraph
          (\<lambda>subgraphIndex. ascii ''subgraph SG'' @ decimal subgraphIndex @ ascii ''['') 1 None d)"

text \<open>
  The preprocessing of one diagram, from \<open>let fixedDefinition = graphDefinition\<close> to the
  call of \<open>mermaid.render\<close>; \<open>graphDefinition\<close> is the trimmed text of the element.
\<close>

definition repair :: "jsstring \<Rightarrow> jsstring" where
  "repair graphDefinition =
     (let fixedDefinition = graphDefinition;
          fixedDefinition = (if includes_js fixedDefinition (ascii ''quadrantChart'')
                             then fixQuadrant fixedDefinition else fixedDefinition);
          fixedDefinition = (if test re_flow_header fixedDefinition
                             then fixFlowchart fixedDefinition else fixedDefinition)
      in fixedDefinition)"


subsection \<open>Sample diagrams\<close>

definition flow_example :: jsstring where
  "flow_example = ascii ''graph TD'' @ [10] @ ascii ''    subgraph A'' @ [10] @ ascii ''    a --> b'' @ [10] @
     ascii ''    subgraph B'' @ [10] @ ascii ''    c --> d''"


text \<open>
  A flow chart with two \<open>subgraph\<close> lines and no \<open>end\<close> that is also read as a quadrant
  chart: its third line is a title in Chinese that holds the second \<open>subgraph\<close> and the
  word \<open>quadrantChart\<close>. \<open>hybrid_titled\<close> is what the title rewrite leaves of it.
\<close>

definition hybrid_example :: jsstring where
  "hybrid_example = ascii ''graph TD'' @ [10] @ ascii ''subgraph A'' @ [10] @
     ascii ''title '' @ [20013] @ ascii '' subgraph B quadrantChart''"

definition hybrid_titled :: jsstring where
  "hybrid_titled = ascii ''graph TD'' @ [10] @ ascii ''subgraph A'' @ [10] @ ascii ''title Priority Matrix''"


subsection \<open>Quadrant charts with Chinese text\<close>














subsection \<open>Notions of the proofs\<close>







text \<open>What follows the keyword in the label expressions, and the hypothesis of the family.\<close>

definition colon_tail :: regex where
  "colon_tail = [Plus space, Star not_colon_newline, Chars [58], Star space, Star not_newline]"

definition cjk_tail :: regex where
  "cjk_tail = [Plus space, Star not_newline, Plus cjk, Star not_newline]"



section \<open>The interview: proofs\<close>

declare fetchNextQuestion.simps [simp del]
declare decimal.simps [simp del] replace_all.simps [simp del] count_matches.simps [simp del]

subsection \<open>Dimension tracking\<close>

lemma first_incomplete_Some:
  "first_incomplete cs ds = Some d \<Longrightarrow> d \<in> set ds \<and> coverage (dimensions cs d) < 100"
  by (induction ds) (auto split: if_splits)

lemma first_incomplete_None:
  "first_incomplete cs ds = None \<longleftrightarrow> (\<forall>d \<in> set ds. \<not> coverage (dimensions cs d) < 100)"
  by (induction ds) auto

lemma indexOf_nonneg: "x \<in> set xs \<Longrightarrow> 0 \<le> indexOf xs x"
  by (induction xs) (auto simp: Let_def)

lemma first_incomplete_earlier:
  "first_incomplete cs ds = Some d \<Longrightarrow> indexOf ds d' < indexOf ds d \<Longrightarrow> d' \<in> set ds \<Longrightarrow>
     100 \<le> coverage (dimensions cs d')"
proof (induction ds)
  case Nil
  then show ?case by simp
next
  case (Cons a ds)
  show ?case
  proof (cases "coverage (dimensions cs a) < 100")
    case True
    with Cons.prems have "d = a" by simp
    with Cons.prems indexOf_nonneg[of d' ds] show ?thesis
      by (auto simp: Let_def split: if_splits)
  next
    case False
    with Cons.prems have fi: "first_incomplete cs ds = Some d" by simp
    from first_incomplete_Some[OF fi] False have "d \<noteq> a" by auto
    show ?thesis
    proof (cases "d' = a")
      case True
      with False show ?thesis by simp
    next
      case d'a: False
      with Cons.prems \<open>d \<noteq> a\<close> have "indexOf ds d' < indexOf ds d" "d' \<in> set ds"
        by (auto simp: Let_def split: if_splits)
      with Cons.IH fi show ?thesis by blast
    qed
  qed
qed

lemma dimension_in_order: "d \<in> set dimensionOrder"
  by (cases d) (simp_all add: dimensionOrder_def)

text \<open>
  The loop of \<open>fetchNextQuestion\<close> visits the canonical order rotated to start right
  after the active dimension (the active dimension itself comes last).
\<close>

lemma next_dimension_loop_rotate:
  "next_dimension_loop cs (indexOf dimensionOrder active) [1 .. int (length dimensionOrder)] =
     find (\<lambda>d. coverage (dimensions cs d) < 100)
       (rotate (nat (indexOf dimensionOrder active) + 1) dimensionOrder)"
proof -
  have u: "[1 .. 4] = [1, 2, 3, 4::int]" by (simp add: upto.simps)
  show ?thesis
    by (cases active)
      (simp_all add: dimensionOrder_def u Let_def rotate_def rotate1_def numeral_eq_Suc)
qed

lemma first_incomplete_in_order:
  assumes "currentSession s = Some cs"
  shows "\<exists>d. getNextIncompleteDimension s = Inr d \<and>
           getNextIncompleteDimension (s\<lparr>currentDimension := active\<rparr>) = Inr d \<and>
           (if \<forall>d'. 100 \<le> coverage (dimensions cs d') then d = hd dimensionOrder
            else coverage (dimensions cs d) < 100 \<and>
                 (\<forall>d'. indexOf dimensionOrder d' < indexOf dimensionOrder d \<longrightarrow>
                        100 \<le> coverage (dimensions cs d')))"
proof (cases "first_incomplete cs dimensionOrder")
  case None
  then have "\<forall>d'. 100 \<le> coverage (dimensions cs d')"
    using dimension_in_order by (auto simp: first_incomplete_None not_less)
  with None assms show ?thesis
    by (simp add: getNextIncompleteDimension_def dimensionOrder_def)
next
  case (Some d)
  from first_incomplete_Some[OF Some] have lt: "coverage (dimensions cs d) < 100" by simp
  then have "\<not> (\<forall>d'. 100 \<le> coverage (dimensions cs d'))" by (auto simp: not_le)
  moreover have "\<forall>d'. indexOf dimensionOrder d' < indexOf dimensionOrder d \<longrightarrow>
                        100 \<le> coverage (dimensions cs d')"
    using first_incomplete_earlier[OF Some] dimension_in_order by blast
  ultimately show ?thesis using Some assms lt
    by (auto simp: getNextIncompleteDimension_def)
qed

text \<open>
  Claim C1, as amended. \<open>getNextIncompleteDimension\<close> scans the canonical order from its
  first dimension, whatever the active dimension is: it returns the first dimension
  with coverage below 100 (every dimension before it in the canonical order has coverage
  at least 100), and the first dimension of the canonical order when all four are at
  least 100. The scan that starts right after the active dimension and wraps around is
  the loop \<open>fetchNextQuestion\<close> runs when the generator reports the dimension completed.
\<close>

theorem getNextIncompleteDimension_scans_from_first:
  assumes "currentSession s = Some cs"
  shows "\<exists>d. getNextIncompleteDimension s = Inr d \<and>
           getNextIncompleteDimension (s\<lparr>currentDimension := active\<rparr>) = Inr d \<and>
           (if \<forall>d'. 100 \<le> coverage (dimensions cs d') then d = hd dimensionOrder
            else coverage (dimensions cs d) < 100 \<and>
                 (\<forall>d'. indexOf dimensionOrder d' < indexOf dimensionOrder d \<longrightarrow>
                        100 \<le> coverage (dimensions cs d'))) \<and>
           next_dimension_loop cs (indexOf dimensionOrder active) [1 .. int (length dimensionOrder)] =
             find (\<lambda>d. coverage (dimensions cs d) < 100)
               (rotate (nat (indexOf dimensionOrder active) + 1) dimensionOrder)"
proof -
  from first_incomplete_in_order[OF assms, of active] obtain d where
    d: "getNextIncompleteDimension s = Inr d"
       "getNextIncompleteDimension (s\<lparr>currentDimension := active\<rparr>) = Inr d"
       "if \<forall>d'. 100 \<le> coverage (dimensions cs d') then d = hd dimensionOrder
            else coverage (dimensions cs d) < 100 \<and>
                 (\<forall>d'. indexOf dimensionOrder d' < indexOf dimensionOrder d \<longrightarrow>
                        100 \<le> coverage (dimensions cs d'))"
    by blast
  show ?thesis
    by (rule exI[of _ d], intro conjI) (rule d next_dimension_loop_rotate)+
qed

theorem getNextIncompleteDimension_scans_from_first_witness:
  "getNextIncompleteDimension
     (sample_app (sample_session 100 30 100 20) tech_constraints (sample_question False) [] False []) =
   Inr business_process"
proof -
  let ?cs = "sample_session 100 30 100 20"
  let ?s = "sample_app ?cs tech_constraints (sample_question False) [] False []"
  have a: "currentSession ?s = Some ?cs" by (simp add: sample_app_def)
  from getNextIncompleteDimension_scans_from_first[OF a, of tech_constraints] obtain d where
    d: "getNextIncompleteDimension ?s = Inr d"
      "if \<forall>d'. 100 \<le> coverage (dimensions ?cs d') then d = hd dimensionOrder
       else coverage (dimensions ?cs d) < 100 \<and>
            (\<forall>d'. indexOf dimensionOrder d' < indexOf dimensionOrder d \<longrightarrow>
                   100 \<le> coverage (dimensions ?cs d'))"
    by blast
  have "\<not> 100 \<le> coverage (dimensions ?cs business_process)"
    by (simp add: sample_session_def)
  then have n: "\<not> (\<forall>d'. 100 \<le> coverage (dimensions ?cs d'))" by blast
  from d(2) have e: "coverage (dimensions ?cs d) < 100 \<and>
            (\<forall>d'. indexOf dimensionOrder d' < indexOf dimensionOrder d \<longrightarrow>
                   100 \<le> coverage (dimensions ?cs d'))"
    unfolding if_not_P[OF n] .
  then have lt: "coverage (dimensions ?cs d) < 100" by (rule conjunct1)
  from e have before: "indexOf dimensionOrder business_process < indexOf dimensionOrder d \<longrightarrow>
                   100 \<le> coverage (dimensions ?cs business_process)"
    by blast
  from lt before have "d = business_process"
    by (cases d) (simp_all add: sample_session_def dimensionOrder_def)
  with d(1) show ?thesis by simp
qed

text \<open>
  Claim C1 as stated fails: with business_process active and complete and the other
  three dimensions at 50, the scan that starts right after the active dimension gives
  tech_constraints, and \<open>getNextIncompleteDimension\<close> returns customer_needs.
\<close>

theorem getNextIncompleteDimension_counterexample:
  "getNextIncompleteDimension
     (sample_app (sample_session 50 100 50 50) business_process (sample_question False) [] False []) =
     Inr customer_needs \<and>
   nextIncomplete_spec (sample_session 50 100 50 50) business_process = tech_constraints"
  by (simp add: getNextIncompleteDimension_def sample_app_def sample_session_def
        nextIncomplete_spec_def dimensionOrder_def rotate_def rotate1_def numeral_eq_Suc)

text \<open>
  Claim C6. While some dimension has coverage below 100, \<open>getNextIncompleteDimension\<close>
  returns a dimension whose coverage is below 100, never one at 100 or more.
\<close>

theorem nextIncomplete_never_complete:
  assumes "currentSession s = Some cs" and "\<exists>d. coverage (dimensions cs d) < 100"
  shows "\<exists>d. getNextIncompleteDimension s = Inr d \<and> coverage (dimensions cs d) < 100"
proof -
  from assms(2) obtain d0 where d0: "coverage (dimensions cs d0) < 100" by blast
  have "first_incomplete cs dimensionOrder \<noteq> None"
    using d0 dimension_in_order[of d0] by (auto simp: first_incomplete_None)
  then obtain d where d: "first_incomplete cs dimensionOrder = Some d" by blast
  with first_incomplete_Some[OF d] assms(1) show ?thesis
    by (simp add: getNextIncompleteDimension_def)
qed

theorem nextIncomplete_never_complete_witness:
  "getNextIncompleteDimension
     (sample_app (sample_session 100 100 40 100) customer_needs (sample_question False) [] False []) =
   Inr tech_constraints"
proof -
  let ?cs = "sample_session 100 100 40 100"
  let ?s = "sample_app ?cs customer_needs (sample_question False) [] False []"
  have a: "currentSession ?s = Some ?cs" by (simp add: sample_app_def)
  have b: "\<exists>d. coverage (dimensions ?cs d) < 100"
    by (rule exI[of _ tech_constraints]) (simp add: sample_session_def)
  from nextIncomplete_never_complete[OF a b] obtain d where
    d: "getNextIncompleteDimension ?s = Inr d" "coverage (dimensions ?cs d) < 100" by blast
  from d(2) have "d = tech_constraints" by (cases d) (simp_all add: sample_session_def)
  with d(1) show ?thesis by simp
qed

lemma total_four:
  "foldl (\<lambda>acc d. acc + coverage d) 0 (Object_values ds) =
     coverage (ds customer_needs) + coverage (ds business_process) +
     coverage (ds tech_constraints) + coverage (ds project_constraints)"
  by (simp add: Object_values_def dimensionOrder_def)

lemma length_values: "length (Object_values ds) = 4"
  by (simp add: Object_values_def dimensionOrder_def)

text \<open>
  Claim C5. With the four coverage values in 0..100, \<open>getTotalProgress\<close> is the
  arithmetic mean of the four values rounded to the nearest integer (at most 1/2 away
  from the mean, a tie going up), and lies in 0..100.
\<close>

theorem getTotalProgress_rounded_mean:
  assumes "currentSession s = Some cs"
    and "\<forall>d. 0 \<le> coverage (dimensions cs d) \<and> coverage (dimensions cs d) \<le> 100"
  defines "mean \<equiv> real_of_int (coverage (dimensions cs customer_needs) +
                     coverage (dimensions cs business_process) +
                     coverage (dimensions cs tech_constraints) +
                     coverage (dimensions cs project_constraints)) / 4"
  shows "getTotalProgress s = round mean \<and>
         \<bar>real_of_int (getTotalProgress s) - mean\<bar> \<le> 1 / 2 \<and>
         0 \<le> getTotalProgress s \<and> getTotalProgress s \<le> 100"
proof -
  have eq: "getTotalProgress s = round mean"
    using assms(1)
    by (simp add: getTotalProgress_def total_four length_values Math_round_def round_def mean_def)
  have near: "\<bar>real_of_int (round mean) - mean\<bar> \<le> 1 / 2"
    by (rule of_int_round_abs_le)
  let ?t = "coverage (dimensions cs customer_needs) + coverage (dimensions cs business_process) +
            coverage (dimensions cs tech_constraints) + coverage (dimensions cs project_constraints)"
  have t: "0 \<le> ?t" "?t \<le> 400"
    using assms(2)[rule_format, of customer_needs] assms(2)[rule_format, of business_process]
      assms(2)[rule_format, of tech_constraints] assms(2)[rule_format, of project_constraints]
    by linarith+
  have "0 \<le> mean" "mean \<le> 100" using t by (simp_all add: mean_def)
  then have "0 \<le> round mean" "round mean \<le> 100"
    by (metis round_0 round_mono, metis round_mono round_numeral)
  with eq near show ?thesis by simp
qed

theorem getTotalProgress_rounded_mean_witness:
  "getTotalProgress
     (sample_app (sample_session 50 100 50 51) business_process (sample_question False) [] False []) = 63"
proof -
  let ?cs = "sample_session 50 100 50 51"
  let ?s = "sample_app ?cs business_process (sample_question False) [] False []"
  have a: "currentSession ?s = Some ?cs" by (simp add: sample_app_def)
  have b: "\<forall>d. 0 \<le> coverage (dimensions ?cs d) \<and> coverage (dimensions ?cs d) \<le> 100"
  proof
    fix d show "0 \<le> coverage (dimensions ?cs d) \<and> coverage (dimensions ?cs d) \<le> 100"
      by (cases d) (simp_all add: sample_session_def)
  qed
  from getTotalProgress_rounded_mean[OF a b] have
    "getTotalProgress ?s = round (real_of_int (coverage (dimensions ?cs customer_needs) +
                     coverage (dimensions ?cs business_process) +
                     coverage (dimensions ?cs tech_constraints) +
                     coverage (dimensions ?cs project_constraints)) / 4)"
    by blast
  then show ?thesis by (simp add: sample_session_def round_def)
qed


subsection \<open>Selecting and composing an answer\<close>

lemma do_click_question: "currentQuestion (do_click c s) = currentQuestion s"
  by (cases c) (simp_all add: toggleOption_def toggleOther_def Let_def)

lemma clicks_snoc: "clicks (cs @ [c]) s = do_click c (clicks cs s)"
  by (simp add: clicks_def)

lemma clicks_question: "currentQuestion (clicks cs s) = currentQuestion s"
  by (induction cs rule: rev_induct) (simp_all add: clicks_snoc do_click_question, simp add: clicks_def)

text \<open>
  Claim C10. In single-select mode, after any sequence of at least one \<open>toggleOption\<close>
  or \<open>toggleOther\<close> call, either exactly one option is selected, the "other" flag is off
  and the "other" text is empty, or the "other" flag is on and no option is selected. So
  the list and the flag are never both populated and the list holds at most one option.
\<close>

theorem single_select_selection_invariant:
  assumes "\<not> multiSelect (currentQuestion s)" and "cs \<noteq> []"
  shows "(\<exists>option. selectedAnswers (clicks cs s) = [option] \<and> \<not> otherSelected (clicks cs s) \<and>
                   otherAnswerText (clicks cs s) = []) \<or>
         (otherSelected (clicks cs s) \<and> selectedAnswers (clicks cs s) = [])"
proof -
  from assms(2) obtain cs' c where cs: "cs = cs' @ [c]" by (cases cs rule: rev_cases) auto
  have single: "\<not> multiSelect (currentQuestion (clicks cs' s))"
    using assms(1) by (simp add: clicks_question)
  show ?thesis
    unfolding cs clicks_snoc using single
    by (cases c) (simp_all add: toggleOption_def toggleOther_def)
qed

theorem single_select_selection_invariant_witness:
  "selectedAnswers (clicks [ClickOption (ascii ''A''), ClickOther, ClickOption (ascii ''B'')]
      (sample_app (sample_session 0 0 0 0) customer_needs (sample_question False) [] False [])) =
     [ascii ''B''] \<and>
   otherSelected (clicks [ClickOption (ascii ''A''), ClickOther]
      (sample_app (sample_session 0 0 0 0) customer_needs (sample_question False) [] False []))"
  using single_select_selection_invariant[of
      "sample_app (sample_session 0 0 0 0) customer_needs (sample_question False) [] False []"
      "[ClickOption (ascii ''A''), ClickOther, ClickOption (ascii ''B'')]"]
  by (simp add: clicks_def sample_app_def sample_question_def toggleOption_def toggleOther_def)

lemma join_as_concat: "join sep (x # xs) = x @ concat (map (\<lambda>y. sep @ y) xs)"
  by (induction xs arbitrary: x) simp_all

text \<open>
  Claim C3. A multi-select submission with a non-empty list of selected options can be
  submitted, and the answer sent is the selected options in order, then the trimmed
  "other" text when "other" is chosen and that text is not empty, each item after the
  first preceded by the full-width semicolon U+FF1B. The witness is the claim's
  example: selections A, B and the other-text C give A, U+FF1B, B, U+FF1B, C.
\<close>

theorem multi_select_answer:
  assumes "multiSelect (currentQuestion s)" and "selectedAnswers s = a # as"
    and "question_text (currentQuestion s) \<noteq> []" and "options (currentQuestion s) \<noteq> []"
  defines "other \<equiv> (if otherSelected s \<and> trim (otherAnswerText s) \<noteq> []
                     then [trim (otherAnswerText s)] else [])"
  shows "canSubmitAnswer s \<and>
         b_answer (submit_request s) = Some (a @ concat (map (\<lambda>y. [0xFF1B] @ y) (as @ other)))"
  using assms(1-4)
  by (simp add: canSubmitAnswer_def submit_request_def composeAnswer_def other_def
        full_width_semicolon_def join_as_concat Let_def)

theorem multi_select_answer_witness:
  "b_answer (submit_request (sample_app (sample_session 0 0 0 0) customer_needs (sample_question True)
       [ascii ''A'', ascii ''B''] True (ascii ''C''))) = Some [65, 0xFF1B, 66, 0xFF1B, 67]"
  using multi_select_answer[of "sample_app (sample_session 0 0 0 0) customer_needs (sample_question True)
       [ascii ''A'', ascii ''B''] True (ascii ''C'')" "ascii ''A''" "[ascii ''B'']"]
  by (simp add: sample_app_def sample_question_def ascii_def trim_def is_space_def space_ranges_def)

text \<open>
  Claim C4. For a single-select question that is shown: when "other" is chosen, the
  answer can be submitted exactly when the trimmed custom text is not empty (otherwise
  \<open>submitAnswer\<close> returns at once, sends nothing and changes nothing), and the answer
  composed is the trimmed custom text; when "other" is not chosen, the answer composed
  is the selected option (and nothing is submitted when no option is selected).
\<close>

theorem single_select_answer:
  assumes "\<not> multiSelect (currentQuestion s)"
    and "question_text (currentQuestion s) \<noteq> []" and "options (currentQuestion s) \<noteq> []"
  shows "(otherSelected s \<longrightarrow>
            (canSubmitAnswer s \<longleftrightarrow> trim (otherAnswerText s) \<noteq> []) \<and>
            (trim (otherAnswerText s) = [] \<longrightarrow> submitAnswer server outcomes s = Some (s, outcomes)) \<and>
            b_answer (submit_request s) = Some (trim (otherAnswerText s))) \<and>
         (\<not> otherSelected s \<longrightarrow>
            (canSubmitAnswer s \<longleftrightarrow> selectedAnswers s \<noteq> []) \<and>
            (selectedAnswers s = [] \<longrightarrow> submitAnswer server outcomes s = Some (s, outcomes)) \<and>
            (\<forall>a as. selectedAnswers s = a # as \<longrightarrow> b_answer (submit_request s) = Some a))"
  using assms
  by (auto simp: canSubmitAnswer_def submit_request_def composeAnswer_def submitAnswer_def)

theorem single_select_answer_witness:
  "\<not> canSubmitAnswer (sample_app (sample_session 0 0 0 0) customer_needs (sample_question False)
       [] True (ascii ''  '')) \<and>
   b_answer (submit_request (sample_app (sample_session 0 0 0 0) customer_needs (sample_question False)
       [] True (ascii '' C ''))) = Some (ascii ''C'') \<and>
   b_answer (submit_request (sample_app (sample_session 0 0 0 0) customer_needs (sample_question False)
       [ascii ''A''] False [])) = Some (ascii ''A'')"
proof -
  let ?s = "\<lambda>sel other tx. sample_app (sample_session 0 0 0 0) customer_needs (sample_question False)
       sel other tx"
  have q: "\<not> multiSelect (currentQuestion (?s sel other tx))"
     "question_text (currentQuestion (?s sel other tx)) \<noteq> []"
     "options (currentQuestion (?s sel other tx)) \<noteq> []" for sel other tx
    by (simp_all add: sample_app_def sample_question_def ascii_def)
  have t: "trim (ascii ''  '') = []" "trim (ascii '' C '') = ascii ''C''"
    by (simp_all add: ascii_def trim_def is_space_def space_ranges_def)
  from single_select_answer[OF q, of "[]" True "ascii ''  ''"] t
  have 1: "\<not> canSubmitAnswer (?s [] True (ascii ''  ''))" by (simp add: sample_app_def)
  from single_select_answer[OF q, of "[]" True "ascii '' C ''"] t
  have 2: "b_answer (submit_request (?s [] True (ascii '' C ''))) = Some (ascii ''C'')"
    by (simp add: sample_app_def)
  from single_select_answer[OF q, of "[ascii ''A'']" False "[]"]
  have 3: "b_answer (submit_request (?s [ascii ''A''] False [])) = Some (ascii ''A'')"
    by (simp add: sample_app_def)
  from 1 2 3 show ?thesis by simp
qed


subsection \<open>Failed requests\<close>

lemma fetch_finally_session: "currentSession (fetch_finally s) = currentSession s"
  by (simp add: fetch_finally_def stopWebSearchPolling_def)

lemma on_network_error_session: "currentSession (on_network_error s) = currentSession s"
  by (simp add: on_network_error_def showToast_def)

lemma on_service_error_session: "currentSession (on_service_error r s) = currentSession s"
  by (simp add: on_service_error_def showToast_def Let_def)

lemma startWebSearchPolling_session: "currentSession (startWebSearchPolling s) = currentSession s"
  by (simp add: startWebSearchPolling_def)

lemmas session_kept = fetch_finally_session on_network_error_session on_service_error_session
  startWebSearchPolling_session

text \<open>\<open>fetchNextQuestion\<close> never assigns \<open>currentSession\<close>, however many requests it makes.\<close>

lemma fetchNextQuestion_keeps_session:
  "fetchNextQuestion outcomes s = Some (s', rest) \<Longrightarrow> currentSession s' = currentSession s"
proof (induction outcomes s arbitrary: s' rest rule: fetchNextQuestion.induct)
  case (1 outcomes s)
  let ?s = "(startWebSearchPolling (s\<lparr>loadingQuestion := True\<rparr>))
              \<lparr>selectedAnswers := [], otherAnswerText := [], otherSelected := False\<rparr>"
  show ?case
  proof (cases "currentSession s")
    case None
    with "1.prems" show ?thesis
      by (subst (asm) fetchNextQuestion.simps) (auto simp: Let_def session_kept)
  next
    case (Some cs)
    show ?thesis
    proof (cases outcomes)
      case Nil
      with "1.prems" Some show ?thesis
        by (subst (asm) fetchNextQuestion.simps) (simp add: Let_def session_kept)
    next
      case (Cons out rest0)
      show ?thesis
      proof (cases out)
        case NetworkFailure
        with "1.prems" Some Cons show ?thesis
          by (subst (asm) fetchNextQuestion.simps) (auto simp: Let_def session_kept)
      next
        case (HttpResponse ok r)
        show ?thesis
        proof (cases "\<not> ok \<or> r_error r \<noteq> []")
          case True
          with "1.prems" Some Cons HttpResponse show ?thesis
            by (subst (asm) fetchNextQuestion.simps) (auto simp: Let_def session_kept)
        next
          case ok: False
          show ?thesis
          proof (cases "completed r")
            case False
            with "1.prems" Some Cons HttpResponse ok show ?thesis
              by (subst (asm) fetchNextQuestion.simps) (auto simp: Let_def session_kept)
          next
            case True
            show ?thesis
            proof (cases "next_dimension_loop cs (indexOf dimensionOrder (currentDimension ?s))
                            [1 .. int (length dimensionOrder)]")
              case None
              with "1.prems" Some Cons HttpResponse ok True show ?thesis
                by (subst (asm) fetchNextQuestion.simps) (auto simp: Let_def session_kept)
            next
              case (Some nextDim)
              from "1.prems" \<open>currentSession s = Some cs\<close> Cons HttpResponse ok True Some
              obtain s1 where
                s1: "fetchNextQuestion rest0 (?s\<lparr>currentDimension := nextDim\<rparr>) = Some (s1, rest)"
                and s': "s' = fetch_finally s1"
                by (subst (asm) fetchNextQuestion.simps)
                  (auto simp: Let_def session_kept split: option.splits)
              have "currentSession s1 = currentSession (?s\<lparr>currentDimension := nextDim\<rparr>)"
                using "1.IH"[OF refl refl _ Cons HttpResponse _ _ Some s1]
                  \<open>currentSession s = Some cs\<close> ok True
                by (simp add: session_kept)
              with s' show ?thesis by (simp add: session_kept)
            qed
          qed
        qed
      qed
    qed
  qed
qed

lemma fetchNextQuestion_failure_returns:
  assumes "out = NetworkFailure \<or> (\<exists>ok r. out = HttpResponse ok r \<and> (\<not> ok \<or> r_error r \<noteq> []))"
  shows "\<exists>s' rest'. fetchNextQuestion (out # rest) s = Some (s', rest')"
  using assms by (subst fetchNextQuestion.simps) (auto simp: Let_def split: option.splits)

lemma submitAnswer_failure:
  assumes "server (submit_request s) = ApiRejected \<or> (\<exists>e. server (submit_request s) = ApiNotOk e)"
  shows "\<exists>s'. submitAnswer server outcomes s = Some (s', outcomes) \<and> currentSession s' = currentSession s"
  using assms by (auto simp: submitAnswer_def apiCall_def showToast_def Let_def split: option.splits)

text \<open>
  Claim C2. A call whose request fails leaves the session as it was. Whatever
  \<open>fetchNextQuestion\<close> returns, \<open>currentSession\<close> (its log and its four coverage values)
  is the one it started with; when its request fails by a network error or a service
  error (a response that is not \<open>ok\<close> or carries an \<open>error\<close>), the call returns. When the
  \<open>submit-answer\<close> request of \<open>submitAnswer\<close> is rejected or answered by an error, the
  call returns with \<open>currentSession\<close> unchanged and makes no further request.
\<close>

theorem failed_request_keeps_session:
  "(fetchNextQuestion outcomes s = Some (s', rest) \<longrightarrow> currentSession s' = currentSession s) \<and>
   (out = NetworkFailure \<or> (\<exists>ok r. out = HttpResponse ok r \<and> (\<not> ok \<or> r_error r \<noteq> [])) \<longrightarrow>
      (\<exists>s1 rest1. fetchNextQuestion (out # outcomes) s = Some (s1, rest1) \<and>
                 currentSession s1 = currentSession s)) \<and>
   (server (submit_request s) = ApiRejected \<or> (\<exists>e. server (submit_request s) = ApiNotOk e) \<longrightarrow>
      (\<exists>s2. submitAnswer server outcomes s = Some (s2, outcomes) \<and> currentSession s2 = currentSession s))"
proof (intro conjI impI)
  assume "fetchNextQuestion outcomes s = Some (s', rest)"
  then show "currentSession s' = currentSession s" by (rule fetchNextQuestion_keeps_session)
next
  assume a: "out = NetworkFailure \<or> (\<exists>ok r. out = HttpResponse ok r \<and> (\<not> ok \<or> r_error r \<noteq> []))"
  from fetchNextQuestion_failure_returns[OF a] obtain s1 rest1 where
    r: "fetchNextQuestion (out # outcomes) s = Some (s1, rest1)" by blast
  with fetchNextQuestion_keeps_session[OF r]
  show "\<exists>s1 rest1. fetchNextQuestion (out # outcomes) s = Some (s1, rest1) \<and>
          currentSession s1 = currentSession s"
    by blast
next
  assume "server (submit_request s) = ApiRejected \<or> (\<exists>e. server (submit_request s) = ApiNotOk e)"
  then show "\<exists>s2. submitAnswer server outcomes s = Some (s2, outcomes) \<and>
          currentSession s2 = currentSession s"
    by (rule submitAnswer_failure)
qed

theorem failed_request_keeps_session_witness:
  "(\<exists>s1 rest1. fetchNextQuestion [NetworkFailure]
       (sample_app (sample_session 10 20 30 40) customer_needs (sample_question False) [ascii ''A''] False []) =
         Some (s1, rest1) \<and>
       currentSession s1 = Some (sample_session 10 20 30 40)) \<and>
   (\<exists>s2. submitAnswer (\<lambda>b. ApiRejected) []
       (sample_app (sample_session 10 20 30 40) customer_needs (sample_question False) [ascii ''A''] False []) =
         Some (s2, []) \<and>
       currentSession s2 = Some (sample_session 10 20 30 40))"
  using failed_request_keeps_session[where out = NetworkFailure and outcomes = "[]"
      and server = "\<lambda>b. ApiRejected"
      and s = "sample_app (sample_session 10 20 30 40) customer_needs (sample_question False) [ascii ''A''] False []"]
  by (simp add: sample_app_def)


section \<open>The matcher: proofs\<close>

lemma lastp_simps [simp]: "lastp p [] = p" "lastp p (x # xs) = lastp (Some x) xs"
  by (simp_all add: lastp_def)

lemma lastp_append: "lastp p (xs @ ys) = lastp (lastp p xs) ys"
  by (induction xs arbitrary: p) simp_all

lemma matches_suffix:
  "matches k p s = Some (p', s') \<Longrightarrow> \<exists>xs. s = xs @ s' \<and> p' = lastp p xs"
proof (induction k p s arbitrary: p' s' rule: matches.induct)
  case (1 p s)
  then show ?case by auto
next
  case (2 k p s)
  then show ?case by simp
next
  case (3 c w k p)
  then show ?case by simp
next
  case (4 c w k p d s)
  from "4.prems" have cd: "c = d" and m: "matches (Chars w # k) (Some d) s = Some (p', s')"
    by (auto split: if_splits)
  from "4.IH"[OF cd m] obtain xs where "s = xs @ s'" "p' = lastp (Some d) xs" by blast
  then have "d # s = (d # xs) @ s' \<and> p' = lastp p (d # xs)" by simp
  then show ?case by blast
next
  case (5 cl k p)
  then show ?case by simp
next
  case (6 cl k p d s)
  from "6.prems" have cd: "in_cls cl d" and m: "matches k (Some d) s = Some (p', s')"
    by (auto split: if_splits)
  from "6.IH"[OF cd m] obtain xs where "s = xs @ s'" "p' = lastp (Some d) xs" by blast
  then have "d # s = (d # xs) @ s' \<and> p' = lastp p (d # xs)" by simp
  then show ?case by blast
next
  case (7 cl k p)
  then show ?case by simp
next
  case (8 cl k p d s)
  show ?case
  proof (cases "in_cls cl d")
    case False
    with "8.prems" "8.IH"(3) show ?thesis by simp
  next
    case True
    show ?thesis
    proof (cases "matches (Star cl # k) (Some d) s")
      case None
      with True "8.prems" "8.IH"(2) show ?thesis by simp
    next
      case (Some r)
      with True "8.prems" have m: "matches (Star cl # k) (Some d) s = Some (p', s')" by simp
      from "8.IH"(1)[OF True m] obtain xs where "s = xs @ s'" "p' = lastp (Some d) xs" by blast
      then have "d # s = (d # xs) @ s' \<and> p' = lastp p (d # xs)" by simp
      then show ?thesis by blast
    qed
  qed
next
  case (9 cl k p)
  then show ?case by simp
next
  case (10 cl k p d s)
  from "10.prems" have cd: "in_cls cl d" and m: "matches (Star cl # k) (Some d) s = Some (p', s')"
    by (auto split: if_splits)
  from "10.IH"[OF cd m] obtain xs where "s = xs @ s'" "p' = lastp (Some d) xs" by blast
  then have "d # s = (d # xs) @ s' \<and> p' = lastp p (d # xs)" by simp
  then show ?case by blast
next
  case (11 cl k p)
  then show ?case by simp
next
  case (12 cl k p d s)
  show ?case
  proof (cases "matches k p (d # s)")
    case (Some r)
    with "12.prems" "12.IH"(1) show ?thesis by simp
  next
    case None
    with "12.prems" have cd: "in_cls cl d"
      and m: "matches (LazyStar cl # k) (Some d) s = Some (p', s')"
      by (auto split: if_splits)
    from "12.IH"(2)[OF None cd m] obtain xs where "s = xs @ s'" "p' = lastp (Some d) xs" by blast
    then have "d # s = (d # xs) @ s' \<and> p' = lastp p (d # xs)" by simp
    then show ?thesis by blast
  qed
next
  case (13 k p s)
  then show ?case by (auto split: option.splits if_splits)
next
  case (14 k p s)
  then show ?case by (auto split: if_splits)
next
  case (15 k p s)
  then show ?case by simp
next
  case (16 w ws k p s)
  then show ?case by (auto split: option.splits)
qed


lemma matches_length_le: "matches k p s = Some (p', s') \<Longrightarrow> length s' \<le> length s"
  by (auto dest: matches_suffix)

lemma matches_consuming:
  "consuming k \<Longrightarrow> matches k p s = Some (p', s') \<Longrightarrow> length s' < length s"
proof (induction k p s arbitrary: p' s' rule: matches.induct)
  case (4 c w k p d s)
  then have "matches (Chars w # k) (Some d) s = Some (p', s')" by (auto split: if_splits)
  from matches_length_le[OF this] show ?case by simp
next
  case (6 cl k p d s)
  then have "matches k (Some d) s = Some (p', s')" by (auto split: if_splits)
  from matches_length_le[OF this] show ?case by simp
next
  case (8 cl k p d s)
  from "8.prems"(1) have ck: "consuming k" by simp
  show ?case
  proof (cases "in_cls cl d")
    case False
    with "8.prems"(2) have "matches k p (d # s) = Some (p', s')" by simp
    from "8.IH"(3)[OF False ck this] show ?thesis .
  next
    case True
    show ?thesis
    proof (cases "matches (Star cl # k) (Some d) s")
      case None
      with True "8.prems"(2) have "matches k p (d # s) = Some (p', s')" by simp
      from "8.IH"(2)[OF True None ck this] show ?thesis .
    next
      case (Some r)
      with True "8.prems"(2) have "matches (Star cl # k) (Some d) s = Some (p', s')" by simp
      from matches_length_le[OF this] show ?thesis by simp
    qed
  qed
next
  case (10 cl k p d s)
  then have "matches (Star cl # k) (Some d) s = Some (p', s')" by (auto split: if_splits)
  from matches_length_le[OF this] show ?case by simp
next
  case (12 cl k p d s)
  show ?case
  proof (cases "matches k p (d # s)")
    case (Some r)
    with "12.prems" "12.IH"(1) show ?thesis by simp
  next
    case None
    with "12.prems" have "matches (LazyStar cl # k) (Some d) s = Some (p', s')"
      by (auto split: if_splits)
    from matches_length_le[OF this] show ?thesis by simp
  qed
next
  case (16 w ws k p s)
  show ?case
  proof (cases "matches (Chars w # k) p s")
    case (Some r)
    with "16.prems" "16.IH"(1) show ?thesis by auto
  next
    case None
    with "16.prems" "16.IH"(2) show ?thesis by auto
  qed
qed (auto split: option.splits if_splits)

lemma replace_all_consuming:
  assumes "consuming re"
  shows "replace_all re f n p [] = []"
    and "replace_all re f n p (c # s) =
           (case matches re p (c # s) of
              Some (p', s') \<Rightarrow> f n @ replace_all re f (Suc n) p' s'
            | None \<Rightarrow> c # replace_all re f n (Some c) s)"
proof -
  show "replace_all re f n p [] = []"
    using matches_consuming[OF assms, of p "[]"] by (auto simp: replace_all.simps split: option.splits)
  show "replace_all re f n p (c # s) =
           (case matches re p (c # s) of
              Some (p', s') \<Rightarrow> f n @ replace_all re f (Suc n) p' s'
            | None \<Rightarrow> c # replace_all re f n (Some c) s)"
    using matches_consuming[OF assms, of p "c # s"]
    by (auto simp: replace_all.simps split: option.splits)
qed

lemma count_matches_consuming:
  assumes "consuming re"
  shows "count_matches re p [] = 0"
    and "count_matches re p (c # s) =
           (case matches re p (c # s) of
              Some (p', s') \<Rightarrow> Suc (count_matches re p' s')
            | None \<Rightarrow> count_matches re (Some c) s)"
proof -
  show "count_matches re p [] = 0"
    using matches_consuming[OF assms, of p "[]"] by (auto simp: count_matches.simps split: option.splits)
  show "count_matches re p (c # s) =
           (case matches re p (c # s) of
              Some (p', s') \<Rightarrow> Suc (count_matches re p' s')
            | None \<Rightarrow> count_matches re (Some c) s)"
    using matches_consuming[OF assms, of p "c # s"]
    by (auto simp: count_matches.simps split: option.splits)
qed


lemmas chars = ascii_def list.map of_char_Char horner_sum_simps of_bool_eq arith_simps
  mult_zero_right mult_zero_left add_0_right add_0_left mult_1 mult_1_right
  one_plus_numeral numeral_plus_one one_add_one
  append.simps

lemma consuming_regexes:
  "consuming (re_label_with_colon kw)" "consuming (re_label_with_cjk kw)" "consuming re_cjk_point"
  "consuming re_data_point" "consuming re_flow_header" "consuming re_subgraph" "consuming re_end"
  "consuming re_cjk_subgraph" "consuming re_cjk_node" "w \<noteq> [] \<Longrightarrow> consuming [Chars w]"
  by (simp_all add: re_label_with_colon_def re_label_with_cjk_def re_cjk_point_def re_data_point_def
      re_flow_header_def re_subgraph_def re_end_def re_cjk_subgraph_def re_cjk_node_def ascii_def)

lemmas replace_all_eval =
  replace_all_consuming[OF consuming_regexes(1)] replace_all_consuming[OF consuming_regexes(2)]
  replace_all_consuming[OF consuming_regexes(3)] replace_all_consuming[OF consuming_regexes(8)]
  replace_all_consuming[OF consuming_regexes(9)]

lemmas count_matches_eval =
  count_matches_consuming[OF consuming_regexes(6)] count_matches_consuming[OF consuming_regexes(7)]

lemma matches_unfold:
  "matches (re_label_with_colon kw) = matches [Chars (ascii kw), Plus space, Star not_colon_newline, Chars [58], Star space, Star not_newline]"
  "matches (re_label_with_cjk kw) = matches [Chars (ascii kw), Plus space, Star not_newline, Plus cjk, Star not_newline]"
  "matches re_cjk_point = matches [Bol, Star space, Star not_colon_newline, Plus cjk, LazyStar not_colon_newline, Chars [58], Star space, Chars [91]]"
  "matches re_data_point = matches [Plus word, Chars [58], Star space, Chars [91], Star space, Plus digit_or_dot,
      Star space, Chars [44], Star space, Plus digit_or_dot, Star space, Chars [93]]"
  "matches re_flow_header = matches [Bol, Alt [[103, 114, 97, 112, 104], [102, 108, 111, 119, 99, 104, 97, 114, 116]], One space]"
  "matches re_subgraph = matches [Chars [115, 117, 98, 103, 114, 97, 112, 104], One space]"
  "matches re_end = matches [WordB, Chars [101, 110, 100], WordB]"
  "matches re_cjk_subgraph = matches [Chars [115, 117, 98, 103, 114, 97, 112, 104], Plus space, One cjk, Star not_bracket_quote_newline, Chars [91]]"
  "matches re_cjk_node = matches [Bol, Star space, Plus cjk, Chars [91]]"
  by (simp_all add: re_label_with_colon_def re_label_with_cjk_def re_cjk_point_def re_data_point_def
      re_flow_header_def re_subgraph_def re_end_def re_cjk_subgraph_def re_cjk_node_def ascii_def)

lemma keyword_units:
  "ascii ''quadrant-1'' = [113, 117, 97, 100, 114, 97, 110, 116, 45, 49]"
  "ascii ''quadrant-2'' = [113, 117, 97, 100, 114, 97, 110, 116, 45, 50]"
  "ascii ''quadrant-3'' = [113, 117, 97, 100, 114, 97, 110, 116, 45, 51]"
  "ascii ''quadrant-4'' = [113, 117, 97, 100, 114, 97, 110, 116, 45, 52]"
  "ascii ''title'' = [116, 105, 116, 108, 101]"
  "ascii ''x-axis'' = [120, 45, 97, 120, 105, 115]"
  "ascii ''y-axis'' = [121, 45, 97, 120, 105, 115]"
  "ascii ''quadrantChart'' = [113, 117, 97, 100, 114, 97, 110, 116, 67, 104, 97, 114, 116]"
  by (simp_all add: ascii_def)

lemma in_space: "in_cls space c \<longleftrightarrow> c = 32 \<or> (9 \<le> c \<and> c \<le> 13) \<or> (160 \<le> c \<and> in_ranges c space_ranges)"
  by (auto simp: space_def space_ranges_def)

lemma in_classes:
  "in_cls word c \<longleftrightarrow> (97 \<le> c \<and> c \<le> 122) \<or> (65 \<le> c \<and> c \<le> 90) \<or> (48 \<le> c \<and> c \<le> 57) \<or> c = 95"
  "in_cls digit_or_dot c \<longleftrightarrow> (48 \<le> c \<and> c \<le> 57) \<or> c = 46"
  "in_cls cjk c \<longleftrightarrow> 0x4E00 \<le> c \<and> c \<le> 0x9FA5"
  "in_cls not_newline c \<longleftrightarrow> c \<noteq> 10"
  "in_cls not_colon_newline c \<longleftrightarrow> c \<noteq> 58 \<and> c \<noteq> 10"
  "in_cls not_bracket_quote_newline c \<longleftrightarrow> c \<noteq> 91 \<and> c \<noteq> 34 \<and> c \<noteq> 10"
  by (auto simp: word_def word_ranges_def digit_or_dot_def cjk_def not_newline_def
      not_colon_newline_def not_bracket_quote_newline_def)

lemmas ev = replace_all_eval count_matches_eval matches_unfold keyword_units in_space in_classes
  matches.simps test_from.simps in_ranges.simps space_ranges_def line_terminator_def
  word_before_def word_after_def word_ranges_def
  rel_simps arith_simps simp_thms if_True if_False option.case list.case option.distinct prod.case
  append.simps list.inject option.inject


section \<open>The diagram repair: proofs\<close>

subsection \<open>Closing the sub-groups of a flow chart\<close>

lemma re_end_units: "re_end = [WordB, Chars [101, 110, 100], WordB]"
  by (simp add: re_end_def ascii_def)

lemma end_line_units: "[10] @ ascii ''    end'' = [10, 32, 32, 32, 32, 101, 110, 100]"
  by (simp add: ascii_def)

lemma word_after_cases:
  "word_after [] = False" "word_after (c # s) = in_ranges c word_ranges"
  by (simp_all add: word_after_def)

text \<open>\<open>/\bend\b/\<close> matches exactly the word \<open>end\<close> between two non-word positions.\<close>

lemma matches_end:
  "matches re_end p s =
     (if \<not> word_before p \<and> take 3 s = [101, 110, 100] \<and> \<not> word_after (drop 3 s)
      then Some (Some 100, drop 3 s) else None)"
proof (cases s)
  case Nil
  then show ?thesis by (simp add: re_end_units)
next
  case s1: (Cons a s1)
  show ?thesis
  proof (cases s1)
    case Nil
    with s1 show ?thesis by (simp add: re_end_units)
  next
    case s2: (Cons b s2)
    show ?thesis
    proof (cases s2)
      case Nil
      with s1 s2 show ?thesis by (simp add: re_end_units)
    next
      case (Cons c s3)
      with s1 s2 show ?thesis
        by (auto simp: re_end_units word_after_cases word_before_def word_ranges_def)
    qed
  qed
qed

lemma matches_end_append:
  assumes "E = [] \<or> (\<exists>E'. E = 10 # E')" and "s \<noteq> []"
  shows "matches re_end p (s @ E) = map_option (\<lambda>(q, r). (q, r @ E)) (matches re_end p s)"
proof -
  have wa: "word_after (r @ E) = word_after r" for r
    using assms(1) by (cases r) (auto simp: word_after_def word_ranges_def)
  have t: "take 3 (s @ E) = [101, 110, 100] \<longleftrightarrow> take 3 s = [101, 110, 100]"
  proof (cases "length s \<ge> 3")
    case True
    then show ?thesis by simp
  next
    case False
    moreover have "0 < length s" using assms(2) by simp
    ultimately have "length s = 1 \<or> length s = 2" by arith
    then obtain a b where "s = [a] \<or> s = [a, b]"
      by (cases s; cases "tl s") auto
    with assms(1) show ?thesis by auto
  qed
  show ?thesis
  proof (cases "take 3 s = [101, 110, 100]")
    case True
    then have "length s \<ge> 3" by (cases s; cases "tl s"; cases "tl (tl s)") auto
    then have d: "drop 3 (s @ E) = drop 3 s @ E" by simp
    show ?thesis using True t wa[of "drop 3 s"] d by (simp add: matches_end)
  next
    case False
    with t show ?thesis by (simp add: matches_end)
  qed
qed

lemmas count_end_step = count_matches_consuming[OF consuming_regexes(7)]

lemma count_end_closers:
  "count_matches re_end p (concat (replicate k ([10] @ ascii ''    end''))) = k"
proof (induction k arbitrary: p)
  case 0
  show ?case by (simp add: count_end_step)
next
  case (Suc k)
  let ?E = "concat (replicate k ([10] @ ascii ''    end''))"
  have E: "?E = [] \<or> (\<exists>E'. ?E = 10 # E')" by (cases k) simp_all
  then have wa: "\<not> word_after ?E" by (auto simp: word_after_def word_ranges_def)
  have "concat (replicate (Suc k) ([10] @ ascii ''    end'')) = 10 # 32 # 32 # 32 # 32 # 101 # 110 # 100 # ?E"
    by (simp add: ascii_def)
  then show ?case
    using wa Suc.IH[of "Some 100"]
    by (simp add: count_end_step matches_end word_before_def word_ranges_def)
qed

lemma count_end_append:
  assumes "E = [] \<or> (\<exists>E'. E = 10 # E')"
  shows "count_matches re_end p (s @ E) = count_matches re_end p s + count_matches re_end (lastp p s) E"
proof (induction s arbitrary: p rule: length_induct)
  case (1 s)
  show ?case
  proof (cases s)
    case Nil
    then show ?thesis by (simp add: count_end_step)
  next
    case (Cons c s1)
    show ?thesis
    proof (cases "matches re_end p s")
      case None
      then have "matches re_end p (s @ E) = None"
        using matches_end_append[OF assms, of s p] Cons by simp
      with None Cons "1.IH"[rule_format, of s1 "Some c"] show ?thesis
        by (simp add: count_end_step)
    next
      case (Some r)
      obtain q s' where r: "r = (q, s')" by (cases r)
      from matches_suffix[OF Some[unfolded r]] obtain xs where xs: "s = xs @ s'" "q = lastp p xs" by blast
      from matches_consuming[OF consuming_regexes(7) Some[unfolded r]] have lt: "length s' < length s" .
      have m: "matches re_end p (s @ E) = Some (q, s' @ E)"
        using matches_end_append[OF assms, of s p] Cons Some r by simp
      have "lastp p s = lastp q s'" using xs by (simp add: lastp_append)
      with "1.IH"[rule_format, OF lt, of q] Some r m Cons show ?thesis
        by (simp add: count_end_step)
    qed
  qed
qed

lemma flow_example_counts:
  "count_matches re_subgraph None flow_example = 2"
  "count_matches re_end None flow_example = 0"
  "test re_flow_header flow_example"
  "\<not> includes_js flow_example (ascii ''quadrantChart'')"
  "replace_all re_cjk_subgraph f 1 None (flow_example @ [10] @ ascii ''    end'' @ [10] @ ascii ''    end'') = flow_example @ [10] @ ascii ''    end'' @ [10] @ ascii ''    end''"
  "replace_all re_cjk_node g 1 None (flow_example @ [10] @ ascii ''    end'' @ [10] @ ascii ''    end'') = flow_example @ [10] @ ascii ''    end'' @ [10] @ ascii ''    end''"
  "count_matches re_end None (flow_example @ [10] @ ascii ''    end'' @ [10] @ ascii ''    end'') = 2"
  unfolding flow_example_def test_def includes_js_def
  by (simp_all only: chars ev replace_all_consuming[OF consuming_regexes(10)] cong: if_weak_cong option.case_cong_weak)



section \<open>The repair of quadrant charts: proofs\<close>

subsection \<open>Runs of a class\<close>










lemma label_regexes:
  "re_label_with_colon kw = Chars (ascii kw) # colon_tail"
  "re_label_with_cjk kw = Chars (ascii kw) # cjk_tail"
  by (simp_all add: re_label_with_colon_def re_label_with_cjk_def colon_tail_def cjk_tail_def ascii_def)

lemma tails_unfold:
  "matches colon_tail = matches [Plus space, Star not_colon_newline, Chars [58], Star space, Star not_newline]"
  "matches cjk_tail = matches [Plus space, Star not_newline, Plus cjk, Star not_newline]"
  by (simp_all add: colon_tail_def cjk_tail_def)

lemma replace_all_Chars:
  "replace_all (Chars (c # w) # k) f n p [] = []"
  "replace_all (Chars (c # w) # k) f n p (d # s) =
     (case matches (Chars (c # w) # k) p (d # s) of
        Some (p', s') \<Rightarrow> f n @ replace_all (Chars (c # w) # k) f (Suc n) p' s'
      | None \<Rightarrow> d # replace_all (Chars (c # w) # k) f n (Some d) s)"
  by (rule replace_all_consuming, simp)+






subsection \<open>Chinese texts and coordinates\<close>













subsection \<open>Rewriting by the equations of the matcher\<close>

text \<open>
  The rule sets the evaluations below rewrite with: the equations of the matcher on
  literal code units, and the run lemmas on the texts that are variables.
\<close>

lemmas in_numeral = in_space[of "numeral v"] in_classes[of "numeral v"] for v

lemmas list_rules = append.simps append_assoc list.inject list.distinct

lemmas logic_rules = simp_thms if_True if_False option.case list.case option.distinct prod.case option.inject
  not_None_eq

lemmas number_rules = rel_simps arith_simps

lemmas matcher_rules = matches.simps test_from.simps in_ranges.simps in_numeral space_ranges_def
  line_terminator_def word_before_def word_after_def word_ranges_def replace_all_Chars tails_unfold




subsection \<open>The label rewrites on a chart in Chinese\<close>










subsection \<open>Renaming the data points\<close>







subsection \<open>The default data point and the flow chart test\<close>










subsection \<open>The repair of a chart in Chinese\<close>




subsection \<open>The repair of a repaired chart\<close>











subsection \<open>A chart without ideographs\<close>





subsection \<open>The claims on quadrant charts\<close>






section \<open>The repair of flow charts: the closing markers\<close>

lemma fixFlowchart_rename: "fixFlowchart d = renameIdentifiers (closeSubgraphs d)"
  by (simp add: fixFlowchart_def renameIdentifiers_def Let_def)

lemma matches_needs_bracket:
  "k \<noteq> [] \<Longrightarrow> last k = Chars [91] \<Longrightarrow> 91 \<notin> set s \<Longrightarrow> matches k p s = None"
  by (induction k p s rule: matches.induct) (auto split: option.splits if_splits)

lemma matches_append_inert:
  assumes e: "91 \<notin> set e"
  shows "k \<noteq> [] \<Longrightarrow> last k = Chars [91] \<Longrightarrow>
         matches k p (u @ e) = map_option (\<lambda>(q, r). (q, r @ e)) (matches k p u)"
proof (induction k p u rule: matches.induct)
  case (1 p s)
  then show ?case by simp
next
  case (2 k p s)
  then show ?case by (cases "k = []") auto
next
  case (3 c w k p)
  then show ?case using matches_needs_bracket[OF _ _ e] by simp
next
  case (4 c w k p d s)
  then show ?case by (cases "k = []") auto
next
  case (5 cl k p)
  then show ?case using matches_needs_bracket[OF _ _ e] by simp
next
  case (6 cl k p d s)
  then show ?case by (cases "k = []") auto
next
  case (7 cl k p)
  then show ?case
    using matches_needs_bracket[OF _ _ e, of "Star cl # k" p] matches_needs_bracket[of k "[]" p]
    by (cases "k = []") auto
next
  case (8 cl k p d s)
  then show ?case by (cases "k = []") (auto split: option.splits)
next
  case (9 cl k p)
  then show ?case using matches_needs_bracket[OF _ _ e] by simp
next
  case (10 cl k p d s)
  then show ?case by (cases "k = []") auto
next
  case (11 cl k p)
  then show ?case
    using matches_needs_bracket[OF _ _ e, of "LazyStar cl # k" p] matches_needs_bracket[of k "[]" p]
    by (cases "k = []") auto
next
  case (12 cl k p d s)
  then show ?case by (cases "k = []") (auto split: option.splits)
next
  case (13 k p s)
  then show ?case by (cases "k = []") (auto split: option.splits)
next
  case (14 k p s)
  show ?case
  proof (cases s)
    case Nil
    with 14 show ?thesis
      using matches_needs_bracket[OF _ _ e, of "WordB # k" p] matches_needs_bracket[of "WordB # k" "[]" p]
      by simp
  next
    case (Cons d s')
    with 14 show ?thesis by (cases "k = []") (auto simp: word_after_def)
  qed
next
  case (15 k p s)
  then show ?case by simp
next
  case (16 w ws k p s)
  then show ?case by (cases "k = []") (auto split: option.splits)
qed

lemma replace_all_no_bracket:
  assumes "consuming re" "re \<noteq> []" "last re = Chars [91]"
  shows "91 \<notin> set s \<Longrightarrow> replace_all re f n p s = s"
proof (induction s arbitrary: p)
  case Nil
  show ?case by (simp add: replace_all_consuming[OF assms(1)])
next
  case (Cons c s)
  from matches_needs_bracket[OF assms(2,3) Cons.prems] Cons show ?case
    by (simp add: replace_all_consuming[OF assms(1)])
qed

lemma replace_all_append_inert:
  assumes "consuming re" "re \<noteq> []" "last re = Chars [91]" "91 \<notin> set e"
  shows "replace_all re f n p (d @ e) = replace_all re f n p d @ e"
proof (induction d arbitrary: n p rule: length_induct)
  case (1 d)
  show ?case
  proof (cases d)
    case Nil
    then show ?thesis
      by (simp add: replace_all_no_bracket[OF assms] replace_all_consuming[OF assms(1)])
  next
    case (Cons c d')
    note m = matches_append_inert[OF assms(4,2,3), of p d]
    show ?thesis
    proof (cases "matches re p d")
      case None
      with m Cons "1.IH"[rule_format, of d' n "Some c"] show ?thesis
        by (simp add: replace_all_consuming[OF assms(1)])
    next
      case (Some r)
      obtain q s' where r: "r = (q, s')" by (cases r)
      from matches_consuming[OF assms(1) Some[unfolded r]] have lt: "length s' < length d" .
      from m Some r have "matches re p (d @ e) = Some (q, s' @ e)" by simp
      with Some r Cons "1.IH"[rule_format, OF lt, of "Suc n" q] show ?thesis
        by (simp add: replace_all_consuming[OF assms(1)])
    qed
  qed
qed

lemma closers_inert: "91 \<notin> set (concat (replicate k ([10] @ ascii ''    end'')))"
  by (induction k) (simp_all add: ascii_def)

lemma renameIdentifiers_append:
  "renameIdentifiers (d @ concat (replicate k ([10] @ ascii ''    end''))) =
   renameIdentifiers d @ concat (replicate k ([10] @ ascii ''    end''))"
proof -
  have a: "re_cjk_subgraph \<noteq> []" "last re_cjk_subgraph = Chars [91]"
    and b: "re_cjk_node \<noteq> []" "last re_cjk_node = Chars [91]"
    by (simp_all add: re_cjk_subgraph_def re_cjk_node_def ascii_def)
  show ?thesis
    unfolding renameIdentifiers_def
    by (simp only: replace_all_append_inert[OF consuming_regexes(8) a closers_inert]
        replace_all_append_inert[OF consuming_regexes(9) b closers_inert])
qed

text \<open>Both renamings need an ideograph: a text without one is left as it is.\<close>

lemma matches_Star_needs_cjk:
  "\<forall>c \<in> set s. \<not> in_cls cjk c \<Longrightarrow> matches (Star cl # One cjk # k) p s = None"
  "\<forall>c \<in> set s. \<not> in_cls cjk c \<Longrightarrow> matches (Star cl # Plus cjk # k) p s = None"
  by (induction s arbitrary: p) auto

lemma matches_subgraph_needs_cjk:
  "\<forall>c \<in> set s. \<not> in_cls cjk c \<Longrightarrow> matches (Chars w # Plus space # One cjk # k) p s = None"
proof (induction w arbitrary: p s)
  case Nil
  then show ?case by (cases s) (simp_all add: matches_Star_needs_cjk)
next
  case (Cons c w)
  then show ?case by (cases s) simp_all
qed

lemma renameIdentifiers_no_cjk:
  assumes "\<forall>c \<in> set d. \<not> in_cls cjk c"
  shows "renameIdentifiers d = d"
proof -
  have "replace_all re_cjk_subgraph f n p s = s" if "\<forall>c \<in> set s. \<not> in_cls cjk c" for f n p s
    using that
  proof (induction s arbitrary: p)
    case Nil
    show ?case by (simp add: replace_all_eval)
  next
    case (Cons c s)
    from Cons.prems have "matches re_cjk_subgraph p (c # s) = None"
      unfolding re_cjk_subgraph_def by (rule matches_subgraph_needs_cjk)
    with Cons show ?case by (simp add: replace_all_eval)
  qed
  moreover have "replace_all re_cjk_node f n p s = s" if "\<forall>c \<in> set s. \<not> in_cls cjk c" for f n p s
    using that
  proof (induction s arbitrary: p)
    case Nil
    show ?case by (simp add: replace_all_eval)
  next
    case (Cons c s)
    from Cons.prems have "matches re_cjk_node p (c # s) = None"
      unfolding re_cjk_node_def by (simp add: matches_Star_needs_cjk split: option.splits)
    with Cons show ?case by (simp add: replace_all_eval)
  qed
  ultimately show ?thesis using assms by (simp add: renameIdentifiers_def)
qed

text \<open>
  Claim C9, as amended. For every flow or graph diagram that does not declare the quadrant
  chart type, with \<open>opens\<close> matches of \<open>subgraph\s\<close> and \<open>closes\<close> matches of \<open>\bend\b\<close>
  in the source, the repaired text is the source with its Chinese identifiers renamed,
  followed by exactly \<open>opens - closes\<close> lines \<open>end\<close>, none when \<open>opens\<close> is at most
  \<open>closes\<close>; the appended lines add exactly that number of closing markers to those of
  the renamed source. A source without ideographs comes back as it is with the lines
  appended, and then holds \<open>closes + (opens - closes)\<close> closing markers: with two opens and
  no close, exactly two.
\<close>

theorem repair_appends_missing_ends:
  assumes "test re_flow_header d" and "\<not> includes_js d (ascii ''quadrantChart'')"
  defines "opens \<equiv> count_matches re_subgraph None d"
    and "closes \<equiv> count_matches re_end None d"
    and "closers \<equiv> \<lambda>k. concat (replicate k ([10] @ ascii ''    end''))"
  shows "repair d = renameIdentifiers d @ closers (opens - closes) \<and>
         count_matches re_end None (repair d) =
           count_matches re_end None (renameIdentifiers d) + (opens - closes) \<and>
         (opens \<le> closes \<longrightarrow> repair d = renameIdentifiers d) \<and>
         ((\<forall>c \<in> set d. \<not> in_cls cjk c) \<longrightarrow>
            repair d = d @ closers (opens - closes) \<and>
            count_matches re_end None (repair d) = closes + (opens - closes))"
proof -
  let ?k = "opens - closes"
  have E: "closers ?k = [] \<or> (\<exists>E'. closers ?k = 10 # E')"
    unfolding closers_def by (cases ?k) simp_all
  have cs: "closeSubgraphs d = d @ closers ?k"
    by (simp add: closeSubgraphs_def Let_def opens_def closes_def closers_def)
  from assms(1,2) have "repair d = renameIdentifiers (closeSubgraphs d)"
    by (simp add: repair_def Let_def fixFlowchart_rename)
  then have r: "repair d = renameIdentifiers d @ closers ?k"
    unfolding cs closers_def by (simp only: renameIdentifiers_append)
  have n: "count_matches re_end None (t @ closers ?k) = count_matches re_end None t + ?k" for t
    using count_end_append[OF E, of None t] unfolding closers_def by (simp only: count_end_closers)
  have c: "count_matches re_end None (repair d) = count_matches re_end None (renameIdentifiers d) + ?k"
    unfolding r by (rule n)
  from r have z: "opens \<le> closes \<longrightarrow> repair d = renameIdentifiers d"
    by (simp add: closers_def)
  have i: "(\<forall>c \<in> set d. \<not> in_cls cjk c) \<longrightarrow>
            repair d = d @ closers ?k \<and> count_matches re_end None (repair d) = closes + ?k"
    using r c by (auto simp: renameIdentifiers_no_cjk closes_def)
  from r c z i show ?thesis by (intro conjI)
qed

lemma hybrid_labels:
  "replace_all (re_label_with_colon ''quadrant-1'') f n None hybrid_example = hybrid_example"
  "replace_all (re_label_with_colon ''quadrant-2'') f n None hybrid_example = hybrid_example"
  "replace_all (re_label_with_colon ''quadrant-3'') f n None hybrid_example = hybrid_example"
  "replace_all (re_label_with_colon ''quadrant-4'') f n None hybrid_example = hybrid_example"
  "replace_all (re_label_with_cjk ''quadrant-1'') f n None hybrid_example = hybrid_example"
  "replace_all (re_label_with_cjk ''quadrant-2'') f n None hybrid_example = hybrid_example"
  "replace_all (re_label_with_cjk ''quadrant-3'') f n None hybrid_example = hybrid_example"
  "replace_all (re_label_with_cjk ''quadrant-4'') f n None hybrid_example = hybrid_example"
  "replace_all (re_label_with_cjk ''title'') (\<lambda>_. ascii ''title Priority Matrix'') n None hybrid_example = hybrid_titled"
  "replace_all (re_label_with_cjk ''x-axis'') f n None hybrid_titled = hybrid_titled"
  "replace_all (re_label_with_cjk ''y-axis'') f n None hybrid_titled = hybrid_titled"
  apply (simp_all only: label_regexes hybrid_example_def hybrid_titled_def)
  apply (simp_all only: chars list_rules)
  apply (simp_all only: list_rules logic_rules number_rules matcher_rules cong: if_weak_cong option.case_cong_weak)
  done

lemma hybrid_points:
  "replace_all re_cjk_point f n None hybrid_titled = hybrid_titled"
  apply (simp only: hybrid_titled_def)
  apply (simp only: chars list_rules)
  apply (simp only: list_rules logic_rules number_rules matcher_rules replace_all_eval matches_unfold
      cong: if_weak_cong option.case_cong_weak)
  done

lemma hybrid_tests:
  "includes_js hybrid_example (ascii ''quadrantChart'')"
  "test re_flow_header hybrid_example"
  "\<not> test re_data_point hybrid_titled"
  "test re_flow_header (hybrid_titled @ [10] @ ascii ''    Sample: [0.5, 0.5]'')"
  apply (simp_all only: includes_js_def test_def hybrid_example_def hybrid_titled_def)
  apply (simp_all only: chars list_rules)
  apply (simp_all only: list_rules logic_rules number_rules matcher_rules matches_unfold
      cong: if_weak_cong option.case_cong_weak)
  done

lemma hybrid_counts:
  "count_matches re_subgraph None hybrid_example = 2"
  "count_matches re_end None hybrid_example = 0"
  "count_matches re_subgraph None (hybrid_titled @ [10] @ ascii ''    Sample: [0.5, 0.5]'') = 1"
  "count_matches re_end None (hybrid_titled @ [10] @ ascii ''    Sample: [0.5, 0.5]'') = 0"
  "count_matches re_end None (hybrid_titled @ [10] @ ascii ''    Sample: [0.5, 0.5]'' @ [10] @ ascii ''    end'') = 1"
  unfolding hybrid_example_def hybrid_titled_def
  by (simp_all only: chars ev cong: if_weak_cong option.case_cong_weak)

lemma hybrid_no_cjk:
  "\<forall>c \<in> set (hybrid_titled @ [10] @ ascii ''    Sample: [0.5, 0.5]'' @ [10] @ ascii ''    end''). \<not> in_cls cjk c"
  by (simp add: hybrid_titled_def ascii_def in_classes)

text \<open>
  Claim C9 as stated fails on a flow chart that is also read as a quadrant chart: the
  source \<open>hybrid_example\<close> has a flow header, two opens and no close, and its repair holds
  exactly one closing marker. The title rewrite of the first block removes the second
  \<open>subgraph\<close> before the second block counts.
\<close>

theorem repair_hybrid_example:
  "test re_flow_header hybrid_example \<and>
   count_matches re_subgraph None hybrid_example = 2 \<and>
   count_matches re_end None hybrid_example = 0 \<and>
   repair hybrid_example =
     ascii ''graph TD'' @ [10] @ ascii ''subgraph A'' @ [10] @ ascii ''title Priority Matrix'' @ [10] @
     ascii ''    Sample: [0.5, 0.5]'' @ [10] @ ascii ''    end'' \<and>
   count_matches re_end None (repair hybrid_example) = 1"
proof -
  let ?q = "hybrid_titled @ [10] @ ascii ''    Sample: [0.5, 0.5]''"
  have q: "fixQuadrant hybrid_example = ?q"
    unfolding fixQuadrant_def Let_def replace_def hybrid_labels hybrid_points
    using hybrid_tests(3) by simp
  have "closeSubgraphs ?q = ?q @ [10] @ ascii ''    end''"
    by (simp only: closeSubgraphs_def Let_def hybrid_counts(3,4)) simp
  then have "fixFlowchart ?q = ?q @ [10] @ ascii ''    end''"
    using renameIdentifiers_no_cjk[OF hybrid_no_cjk] by (simp add: fixFlowchart_rename)
  with q hybrid_tests(1,4) have r: "repair hybrid_example = ?q @ [10] @ ascii ''    end''"
    by (simp add: repair_def)
  from r have "repair hybrid_example =
     ascii ''graph TD'' @ [10] @ ascii ''subgraph A'' @ [10] @ ascii ''title Priority Matrix'' @ [10] @
     ascii ''    Sample: [0.5, 0.5]'' @ [10] @ ascii ''    end''"
    by (simp add: hybrid_titled_def)
  moreover from r hybrid_counts(5) have "count_matches re_end None (repair hybrid_example) = 1"
    by simp
  ultimately show ?thesis using hybrid_tests(2) hybrid_counts(1,2) by (intro conjI)
qed

lemma flow_example_no_cjk: "\<forall>c \<in> set flow_example. \<not> in_cls cjk c"
  by (simp add: flow_example_def ascii_def in_classes)

theorem repair_appends_missing_ends_witness:
  "repair flow_example = flow_example @ [10] @ ascii ''    end'' @ [10] @ ascii ''    end'' \<and>
   count_matches re_subgraph None flow_example = 2 \<and>
   count_matches re_end None flow_example = 0 \<and>
   count_matches re_end None (repair flow_example) = 2"
proof -
  note c = flow_example_counts
  have k: "concat (replicate (2 - 0) ([10] @ ascii ''    end'')) = [10] @ ascii ''    end'' @ [10] @ ascii ''    end''"
    by (simp add: numeral_2_eq_2)
  from repair_appends_missing_ends[OF c(3,4)] flow_example_no_cjk
  have "repair flow_example =
          flow_example @ concat (replicate (count_matches re_subgraph None flow_example -
                                            count_matches re_end None flow_example) ([10] @ ascii ''    end'')) \<and>
        count_matches re_end None (repair flow_example) =
          count_matches re_end None flow_example +
          (count_matches re_subgraph None flow_example - count_matches re_end None flow_example)"
    by blast
  then have "repair flow_example =
          flow_example @ concat (replicate (count_matches re_subgraph None flow_example -
                                            count_matches re_end None flow_example) ([10] @ ascii ''    end''))"
    and "count_matches re_end None (repair flow_example) =
          count_matches re_end None flow_example +
          (count_matches re_subgraph None flow_example - count_matches re_end None flow_example)"
    by (rule conjunct1, rule conjunct2)
  then have a: "repair flow_example = flow_example @ [10] @ ascii ''    end'' @ [10] @ ascii ''    end''"
    and b: "count_matches re_end None (repair flow_example) = 0 + (2 - 0)"
    by (simp_all only: c(1,2) k)
  from b have "count_matches re_end None (repair flow_example) = 2" by simp
  with a c(1,2) show ?thesis by (intro conjI)
qed

end
